theory Spec2Isabelle
  imports Main "HOL-Library.Word" "HOL-Library.Log_Nat"
begin

section \<open>Python and NumPy primitives used by the image processor\<close>

text \<open>
  Exceptions are values.  \<open>ImageProcessingError e\<close> is the wrapper raised by the outer
  handler of \<open>process_image_with_tiling\<close>, carrying the original exception.
\<close>

datatype exn =
    ZeroDivisionError
  | ValueError
  | RuntimeError
  | ImageProcessingError exn

text \<open>
  \<open>range(0, stop, step)\<close> for a positive step: the multiples of the step below the stop,
  \<open>(stop + step - 1) // step\<close> of them.  The stop is an array dimension (never negative),
  for which a negative step gives the empty range.  A zero step raises and is handled by the
  caller before the range is built.
\<close>

definition py_range :: "int \<Rightarrow> int \<Rightarrow> int list" where
  "py_range stop step =
     (if 0 < step then map (\<lambda>k. int k * step) [0..<nat ((stop + step - 1) div step)] else [])"

text \<open>
  Binary floating point, round to nearest, ties to even, with \<open>p\<close> significand bits
  (\<open>p = 24\<close> for float32, \<open>p = 53\<close> for Python floats).  Values are rationals; the
  exponent range is unbounded, which is exact as long as no overflow or subnormal occurs
  (pixel values lie in \<open>[1/255, 255]\<close>, progress quotients in \<open>[1/total, 100]\<close>).
\<close>

definition pow2 :: "int \<Rightarrow> rat" where
  "pow2 e = (if 0 \<le> e then 2 ^ nat e else 1 / 2 ^ nat (- e))"

definition round_half_even :: "rat \<Rightarrow> int" where
  "round_half_even x = (let f = \<lfloor>x\<rfloor>; d = x - of_int f in
     if d < 1 / 2 then f else if 1 / 2 < d then f + 1 else if even f then f else f + 1)"

text \<open>For \<open>x > 0\<close>, the exponent \<open>e\<close> with \<open>2^e \<le> x < 2^(e+1)\<close>.\<close>

definition binary_exponent :: "rat \<Rightarrow> int" where
  "binary_exponent x =
     (let d = (if 1 \<le> x then bitlen \<lfloor>x\<rfloor> - 1 else - bitlen \<lfloor>1 / x\<rfloor>)
      in if pow2 (d + 1) \<le> x then d + 1 else d)"

definition fl_pos :: "nat \<Rightarrow> rat \<Rightarrow> rat" where
  "fl_pos p x = (let e = binary_exponent x - (int p - 1) in
     of_int (round_half_even (x / pow2 e)) * pow2 e)"

definition fl :: "nat \<Rightarrow> rat \<Rightarrow> rat" where
  "fl p x = (if x = 0 then 0 else if 0 < x then fl_pos p x else - fl_pos p (- x))"

text \<open>\<open>int(x)\<close> on a float and \<open>astype(np.uint8)\<close> truncate towards zero.\<close>

definition py_int :: "rat \<Rightarrow> int" where
  "py_int x = (if 0 \<le> x then \<lfloor>x\<rfloor> else \<lceil>x\<rceil>)"

text \<open>
  An array of shape \<open>(rows, cols, chans)\<close> and dtype uint8: its shape and its indexing
  function, which is only meaningful inside the shape.
\<close>

record ndarray =
  rows :: int
  cols :: int
  chans :: int
  pix :: "int \<Rightarrow> int \<Rightarrow> int \<Rightarrow> 8 word"

text \<open>A float32 tensor of shape \<open>(1, chans, rows, cols)\<close>, indexed channel first.\<close>

record tensor =
  tchans :: int
  trows :: int
  tcols :: int
  tval :: "int \<Rightarrow> int \<Rightarrow> int \<Rightarrow> rat"

definition zeros :: "int \<Rightarrow> int \<Rightarrow> int \<Rightarrow> ndarray" where
  "zeros h w c = \<lparr>rows = h, cols = w, chans = c, pix = (\<lambda>i j k. 0)\<rparr>"

text \<open>A slice bound \<open>a\<close> on an axis of length \<open>n\<close>, normalised as Python does.\<close>

definition slice_idx :: "int \<Rightarrow> int \<Rightarrow> int" where
  "slice_idx n a = (if a < 0 then max 0 (a + n) else min a n)"

definition slice_len :: "int \<Rightarrow> int \<Rightarrow> int \<Rightarrow> int" where
  "slice_len n a b = max 0 (slice_idx n b - slice_idx n a)"

text \<open>\<open>arr[y1:y2, x1:x2]\<close> (all channels).\<close>

definition slice2 :: "ndarray \<Rightarrow> int \<Rightarrow> int \<Rightarrow> int \<Rightarrow> int \<Rightarrow> ndarray" where
  "slice2 arr y1 y2 x1 x2 =
     \<lparr>rows = slice_len (rows arr) y1 y2,
      cols = slice_len (cols arr) x1 x2,
      chans = chans arr,
      pix = (\<lambda>i j k. pix arr (slice_idx (rows arr) y1 + i) (slice_idx (cols arr) x1 + j) k)\<rparr>"

text \<open>
  \<open>out[y1:y2, x1:x2] = part\<close>: NumPy broadcasts \<open>part\<close> to the shape of the target region
  (an axis of length 1 is repeated) and raises \<open>ValueError\<close>, writing nothing, when the
  shapes do not fit.
\<close>

definition broadcastable :: "int \<Rightarrow> int \<Rightarrow> bool" where
  "broadcastable src dst \<longleftrightarrow> src = dst \<or> src = 1"

definition assign_slice ::
  "ndarray \<Rightarrow> int \<Rightarrow> int \<Rightarrow> int \<Rightarrow> int \<Rightarrow> ndarray \<Rightarrow> exn + ndarray" where
  "assign_slice out y1 y2 x1 x2 part =
     (let r0 = slice_idx (rows out) y1; dh = slice_len (rows out) y1 y2;
          c0 = slice_idx (cols out) x1; dw = slice_len (cols out) x1 x2
      in if broadcastable (rows part) dh \<and> broadcastable (cols part) dw \<and>
            broadcastable (chans part) (chans out)
         then Inr (out\<lparr>pix := (\<lambda>i j k.
                if r0 \<le> i \<and> i < r0 + dh \<and> c0 \<le> j \<and> j < c0 + dw
                then pix part (if rows part = 1 then 0 else i - r0)
                             (if cols part = 1 then 0 else j - c0)
                             (if chans part = 1 then 0 else k)
                else pix out i j k)\<rparr>)
         else Inl ValueError)"

section \<open>ImageProcessor\<close>

text \<open>
  \<open>preprocess_image\<close>: \<open>img.astype(np.float32) / 255.0\<close>, then channel first.
\<close>

definition preprocess_image :: "ndarray \<Rightarrow> tensor" where
  "preprocess_image img =
     \<lparr>tchans = chans img, trows = rows img, tcols = cols img,
      tval = (\<lambda>k i j. fl 24 (of_nat (unat (pix img i j k)) / 255))\<rparr>"

text \<open>
  \<open>postprocess_image\<close>: channel last, \<open>np.clip(img, 0, 1)\<close>, \<open>(img * 255.0).astype(np.uint8)\<close>.
\<close>

definition postprocess_image :: "tensor \<Rightarrow> ndarray" where
  "postprocess_image t =
     \<lparr>rows = trows t, cols = tcols t, chans = tchans t,
      pix = (\<lambda>i j k. word_of_int (py_int (fl 24 (min (max (tval t k i j) 0) 1 * 255))))\<rparr>"

text \<open>
  What a pixel value \<open>v\<close> becomes when the tensor made by \<open>preprocess_image\<close> is given
  unchanged to \<open>postprocess_image\<close>, before the conversion to uint8.
\<close>

definition pixel_roundtrip :: "nat \<Rightarrow> int" where
  "pixel_roundtrip v = py_int (fl 24 (min (max (fl 24 (of_nat v / 255)) 0) 1 * 255))"

text \<open>
  The tile geometry of \<open>process_image_with_tiling\<close>.  The source computes the same
  expressions for the x axis (with the width) and the y axis (with the height); each
  definition below is one of them, for an axis of length \<open>w\<close> and a grid origin \<open>x\<close>.
\<close>

definition tile_lo :: "int \<Rightarrow> int \<Rightarrow> int" where
  "tile_lo P x = max 0 (x - P)"

definition tile_hi :: "int \<Rightarrow> int \<Rightarrow> int \<Rightarrow> int \<Rightarrow> int" where
  "tile_hi T P w x = min w (x + T + P)"

definition non_pad_lo :: "int \<Rightarrow> int \<Rightarrow> int" where
  "non_pad_lo P x = max 0 (x - tile_lo P x)"

definition non_pad_hi :: "int \<Rightarrow> int \<Rightarrow> int \<Rightarrow> int \<Rightarrow> int" where
  "non_pad_hi T P w x = min (tile_hi T P w x - tile_lo P x) (non_pad_lo P x + T)"

definition out_tile_lo :: "int \<Rightarrow> int \<Rightarrow> int \<Rightarrow> int" where
  "out_tile_lo P scale x = non_pad_lo P x * scale"

definition out_tile_hi :: "int \<Rightarrow> int \<Rightarrow> int \<Rightarrow> int \<Rightarrow> int \<Rightarrow> int" where
  "out_tile_hi T P scale w x = non_pad_hi T P w x * scale"

definition out_lo :: "int \<Rightarrow> int \<Rightarrow> int" where
  "out_lo scale x = x * scale"

definition out_hi :: "int \<Rightarrow> int \<Rightarrow> int \<Rightarrow> int \<Rightarrow> int" where
  "out_hi T scale w x = min (w * scale) (out_lo scale x + T * scale)"

text \<open>The grid origins in the order of the two nested loops: \<open>y\<close> outer, \<open>x\<close> inner.\<close>

definition tile_grid :: "int \<Rightarrow> int \<Rightarrow> int \<Rightarrow> (int \<times> int) list" where
  "tile_grid w h T = concat (map (\<lambda>y. map (\<lambda>x. (x, y)) (py_range w T)) (py_range h T))"

text \<open>
  Whether the output pixel in column \<open>px\<close> and row \<open>py\<close> lies in the region
  \<open>output[out_y1:out_y2, out_x1:out_x2]\<close> written for the tile at \<open>t = (x, y)\<close>.
\<close>

definition in_dest1 :: "int \<Rightarrow> int \<Rightarrow> int \<Rightarrow> int \<Rightarrow> int \<Rightarrow> bool" where
  "in_dest1 w T scale x px \<longleftrightarrow> out_lo scale x \<le> px \<and> px < out_hi T scale w x"

definition in_dest :: "int \<Rightarrow> int \<Rightarrow> int \<Rightarrow> int \<Rightarrow> int \<times> int \<Rightarrow> int \<Rightarrow> int \<Rightarrow> bool" where
  "in_dest w h T scale t px py =
     (case t of (x, y) \<Rightarrow> in_dest1 w T scale x px \<and> in_dest1 h T scale y py)"

text \<open>The part of the model's output tile that is placed: the crop without the padding.\<close>

definition tile_part :: "int \<Rightarrow> int \<Rightarrow> ndarray \<Rightarrow> int \<Rightarrow> ndarray \<Rightarrow> int \<Rightarrow> int \<Rightarrow> ndarray" where
  "tile_part T P img scale output_tile x y =
     slice2 output_tile
       (out_tile_lo P scale y) (out_tile_hi T P scale (rows img) y)
       (out_tile_lo P scale x) (out_tile_hi T P scale (cols img) x)"

text \<open>
  The body of the inner \<open>try\<close> for the tile at \<open>(x, y)\<close>: extract the padded tile, run the
  model on it, crop, and place the crop in the output.  The model is any function from the
  input tensor to an output tensor or an exception.
\<close>

definition run_tile ::
  "(tensor \<Rightarrow> exn + tensor) \<Rightarrow> int \<Rightarrow> int \<Rightarrow> ndarray \<Rightarrow> int \<Rightarrow> ndarray \<Rightarrow> int \<Rightarrow> int
     \<Rightarrow> exn + ndarray" where
  "run_tile M T P img scale output x y =
     (let h = rows img; w = cols img;
          tile = slice2 img (tile_lo P y) (tile_hi T P h y) (tile_lo P x) (tile_hi T P w x)
      in case M (preprocess_image tile) of
           Inl e \<Rightarrow> Inl e
         | Inr output_tensor \<Rightarrow>
             assign_slice output
               (out_lo scale y) (out_hi T scale h y) (out_lo scale x) (out_hi T scale w x)
               (tile_part T P img scale (postprocess_image output_tensor) x y))"

text \<open>
  \<open>int(tiles_processed / total_tiles * 100)\<close>: a correctly rounded true division, a
  float multiplication and a truncation.
\<close>

definition progress :: "int \<Rightarrow> int \<Rightarrow> int" where
  "progress tiles_processed total_tiles =
     py_int (fl 53 (fl 53 (of_int tiles_processed / of_int total_tiles) * 100))"

text \<open>
  The progress update after a tile; the list is the sequence of values passed to the
  callback so far.
\<close>

definition report :: "int \<Rightarrow> int \<Rightarrow> int list \<Rightarrow> exn + int list" where
  "report tiles_processed total_tiles reported =
     (if total_tiles = 0 then Inl ZeroDivisionError
      else Inr (reported @ [progress tiles_processed total_tiles]))"

text \<open>
  The two nested loops over the remaining grid origins.  The state is the output array,
  \<open>tiles_processed\<close> and the callback log.  An exception of a tile is swallowed unless
  \<open>tiles_processed = 0\<close>.
\<close>

fun tile_loop ::
  "(tensor \<Rightarrow> exn + tensor) \<Rightarrow> int \<Rightarrow> int \<Rightarrow> ndarray \<Rightarrow> int \<Rightarrow> int \<Rightarrow> (int \<times> int) list
     \<Rightarrow> ndarray \<times> int \<times> int list \<Rightarrow> exn + ndarray \<times> int \<times> int list" where
  "tile_loop M T P img scale total_tiles [] st = Inr st"
| "tile_loop M T P img scale total_tiles ((x, y) # ts) (output, tiles_processed, reported) =
     (case run_tile M T P img scale output x y of
        Inl e \<Rightarrow>
          if tiles_processed = 0 then Inl e
          else (case report (tiles_processed + 1) total_tiles reported of
                  Inl e' \<Rightarrow> Inl e'
                | Inr reported' \<Rightarrow>
                    tile_loop M T P img scale total_tiles ts (output, tiles_processed + 1, reported'))
      | Inr output' \<Rightarrow>
          (case report (tiles_processed + 1) total_tiles reported of
             Inl e' \<Rightarrow> Inl e'
           | Inr reported' \<Rightarrow>
               tile_loop M T P img scale total_tiles ts (output', tiles_processed + 1, reported')))"

text \<open>
  \<open>process_image_with_tiling(model, img, scale, callback)\<close> with \<open>self.tile_size = T\<close> and
  \<open>self.tile_padding = P\<close>.  The result is the output array together with the values the
  callback received, or the \<open>ImageProcessingError\<close> of the outer handler.
\<close>

definition process_image_with_tiling ::
  "(tensor \<Rightarrow> exn + tensor) \<Rightarrow> int \<Rightarrow> int \<Rightarrow> ndarray \<Rightarrow> int \<Rightarrow> exn + ndarray \<times> int list" where
  "process_image_with_tiling M T P img scale =
     (let h = rows img; w = cols img; c = chans img;
          output_h = h * scale; output_w = w * scale
      in if output_h < 0 \<or> output_w < 0 then Inl (ImageProcessingError ValueError)
         else if T = 0 then Inl (ImageProcessingError ZeroDivisionError)
         else
           let output = zeros output_h output_w c;
               num_tiles_x = (w + T - 1) div T;
               num_tiles_y = (h + T - 1) div T;
               total_tiles = num_tiles_x * num_tiles_y
           in case tile_loop M T P img scale total_tiles (tile_grid w h T) (output, 0, []) of
                Inl e \<Rightarrow> Inl (ImageProcessingError e)
              | Inr (out, n, reported) \<Rightarrow> Inr (out, reported))"

text \<open>
  Whether the tile at the grid origin \<open>t\<close> raises inside the inner \<open>try\<close>, run on a
  canvas of the output shape (whether it raises depends on the shape of the canvas only, not
  on what earlier tiles wrote).
\<close>

definition tile_raises ::
  "(tensor \<Rightarrow> exn + tensor) \<Rightarrow> int \<Rightarrow> int \<Rightarrow> ndarray \<Rightarrow> int \<Rightarrow> int \<times> int \<Rightarrow> bool" where
  "tile_raises M T P img scale t =
     isl (run_tile M T P img scale
            (zeros (rows img * scale) (cols img * scale) (chans img)) (fst t) (snd t))"

section \<open>ModelManager\<close>

text \<open>
  Every failure of \<open>load_model\<close> reaches the caller as a \<open>ModelError\<close>; the cause says
  which statement raised.
\<close>

datatype load_failure =
    UnknownModel
  | NoUrl
  | DownloadFailed
  | UnsupportedModelType
  | SwinIRImportFailed
  | TorchLoadFailed
  | MissingKey string
  | StrictMismatch

datatype model_error = ModelError load_failure

text \<open>
  A state dict is identified by a number.  The result of \<open>torch.load\<close> on a weight file is
  a dictionary from key names to state dicts.
\<close>

type_synonym state_dict = nat
type_synonym weight_file = "string \<rightharpoonup> state_dict"

datatype arch = RRDBNet nat int | SwinIR int

text \<open>The model object: the architecture that was built and the state dict loaded into it.\<close>

record model =
  model_arch :: arch
  weights :: state_dict

record model_info =
  info_scale :: "int option"
  info_url :: "string option"

text \<open>
  What \<open>load_model\<close> reads from outside the manager: the configuration, whether
  \<open>models.swinir_model\<close> can be imported, whether \<open>load_state_dict(strict=True)\<close> accepts a
  state dict for an architecture, and what the downloader fetches from a URL (\<open>None\<close> when
  the download fails).
\<close>

record env =
  get_model_info :: "string \<Rightarrow> model_info option"
  swinir_importable :: bool
  strict_match :: "arch \<Rightarrow> state_dict \<Rightarrow> bool"
  fetch :: "string \<Rightarrow> weight_file option"

text \<open>
  The manager's fields, and the weight files in the models directory, keyed by model name
  (the file of model \<open>n\<close> is \<open>n.pth\<close>).
\<close>

record manager =
  loaded_model :: "model option"
  current_model_name :: "string option"
  files :: "string \<rightharpoonup> weight_file"

text \<open>
  The effects of \<open>load_model\<close> and \<open>unload_model\<close> on memory and on the disk, in the order
  the statements run: \<open>Release\<close> is \<open>del self.loaded_model\<close> with the cache emptied,
  \<open>Construct\<close> the call of the architecture's constructor, \<open>TorchLoad\<close> the
  deserialisation of a weight file, \<open>LoadStateDict\<close> the state dict given to the model,
  \<open>ToDevice\<close> the move to the device, \<open>Download\<close> a download of a weight file.
\<close>

datatype event =
    Release model
  | Construct arch
  | TorchLoad string
  | LoadStateDict state_dict
  | ToDevice
  | Download string

definition char_lower :: "char \<Rightarrow> char" where
  "char_lower c = (let n = (of_char c :: nat) in if 65 \<le> n \<and> n \<le> 90 then char_of (n + 32) else c)"

definition lower :: "string \<Rightarrow> string" where
  "lower s = map char_lower s"

text \<open>\<open>sub in s\<close> on strings.\<close>

definition contains :: "string \<Rightarrow> string \<Rightarrow> bool" where
  "contains sub s = list_ex (\<lambda>i. take (length sub) (drop i s) = sub) [0..<Suc (length s)]"

definition unload_model :: "manager \<Rightarrow> manager \<times> event list" where
  "unload_model s =
     (case loaded_model s of
        None \<Rightarrow> (s, [])
      | Some m \<Rightarrow> (s\<lparr>loaded_model := None, current_model_name := None\<rparr>, [Release m]))"

text \<open>\<open>ModelManager.download_model\<close>, called by \<open>load_model\<close> when the weight file is missing.\<close>

definition download_model :: "env \<Rightarrow> string \<Rightarrow> manager \<Rightarrow> (model_error + unit) \<times> manager \<times> event list" where
  "download_model E model_name s =
     (case get_model_info E model_name of
        None \<Rightarrow> (Inl (ModelError UnknownModel), s, [])
      | Some info \<Rightarrow>
          (case info_url info of
             None \<Rightarrow> (Inl (ModelError NoUrl), s, [])
           | Some url \<Rightarrow>
               (case fetch E url of
                  None \<Rightarrow> (Inl (ModelError DownloadFailed), s, [Download model_name])
                | Some content \<Rightarrow>
                    (Inr (), s\<lparr>files := (files s)(model_name \<mapsto> content)\<rparr>, [Download model_name]))))"

definition scale_of :: "model_info \<Rightarrow> int" where
  "scale_of info = (case info_scale info of None \<Rightarrow> 4 | Some k \<Rightarrow> k)"

text \<open>\<open>model.load_state_dict(loadnet[keyname], strict=True)\<close>, \<open>eval\<close>, \<open>to(device)\<close>.\<close>

definition load_state_dict ::
  "env \<Rightarrow> arch \<Rightarrow> weight_file \<Rightarrow> string \<Rightarrow> (model_error + model) \<times> event list" where
  "load_state_dict E a loadnet keyname =
     (case loadnet keyname of
        None \<Rightarrow> (Inl (ModelError (MissingKey keyname)), [])
      | Some sd \<Rightarrow>
          if strict_match E a sd
          then (Inr \<lparr>model_arch = a, weights = sd\<rparr>, [LoadStateDict sd, ToDevice])
          else (Inl (ModelError StrictMismatch), [LoadStateDict sd]))"

text \<open>
  \<open>_load_realesrgan_model\<close>; the second argument is the content of the weight file at
  \<open>model_path\<close>, \<open>None\<close> when \<open>torch.load\<close> cannot read it.
\<close>

definition load_realesrgan_model ::
  "env \<Rightarrow> string \<Rightarrow> weight_file option \<Rightarrow> model_info \<Rightarrow> (model_error + model) \<times> event list" where
  "load_realesrgan_model E model_name file info =
     (let scale = scale_of info;
          a = (if contains ''anime'' model_name then RRDBNet 6 scale else RRDBNet 23 scale)
      in case file of
           None \<Rightarrow> (Inl (ModelError TorchLoadFailed), [Construct a])
         | Some loadnet \<Rightarrow>
             let keyname = (if loadnet ''params_ema'' \<noteq> None then ''params_ema'' else ''params'');
                 (r, evs) = load_state_dict E a loadnet keyname
             in (r, [Construct a, TorchLoad model_name] @ evs))"

text \<open>\<open>_load_swinir_model\<close>.\<close>

definition load_swinir_model ::
  "env \<Rightarrow> string \<Rightarrow> weight_file option \<Rightarrow> model_info \<Rightarrow> (model_error + model) \<times> event list" where
  "load_swinir_model E model_name file info =
     (if \<not> swinir_importable E then (Inl (ModelError SwinIRImportFailed), [])
      else
        let scale = scale_of info;
            a = SwinIR scale
        in case file of
             None \<Rightarrow> (Inl (ModelError TorchLoadFailed), [Construct a])
           | Some loadnet \<Rightarrow>
               let (r, evs) = load_state_dict E a loadnet ''params''
               in (r, [Construct a, TorchLoad model_name] @ evs))"

text \<open>
  \<open>load_model\<close> from the point where no model is loaded any more (the lookup of the
  model info, the download of a missing weight file, the load by type): the result, the
  manager afterwards and the effects in order.
\<close>

definition load_fresh ::
  "env \<Rightarrow> string \<Rightarrow> manager \<Rightarrow> (model_error + model) \<times> manager \<times> event list" where
  "load_fresh E model_name s1 =
     (case get_model_info E model_name of
        None \<Rightarrow> (Inl (ModelError UnknownModel), s1, [])
      | Some info \<Rightarrow>
          let (d, s2, evs2) =
                (if files s1 model_name = None then download_model E model_name s1
                 else (Inr (), s1, []))
          in case d of
               Inl e \<Rightarrow> (Inl e, s2, evs2)
             | Inr u \<Rightarrow>
                 let (r, evs3) =
                       (if contains ''realesrgan'' (lower model_name)
                        then load_realesrgan_model E model_name (files s2 model_name) info
                        else if contains ''swinir'' (lower model_name)
                        then load_swinir_model E model_name (files s2 model_name) info
                        else (Inl (ModelError UnsupportedModelType), []))
                 in case r of
                      Inl e \<Rightarrow> (Inl e, s2, evs2 @ evs3)
                    | Inr m \<Rightarrow>
                        (Inr m,
                         s2\<lparr>loaded_model := Some m, current_model_name := Some model_name\<rparr>,
                         evs2 @ evs3))"

text \<open>
  \<open>load_model\<close>: return the loaded model if it is the requested one, otherwise unload the
  current model, if any, and load the requested one.
\<close>

definition load_model ::
  "env \<Rightarrow> string \<Rightarrow> manager \<Rightarrow> (model_error + model) \<times> manager \<times> event list" where
  "load_model E model_name s =
     (case (if current_model_name s = Some model_name then loaded_model s else None) of
        Some m \<Rightarrow> (Inr m, s, [])
      | None \<Rightarrow>
          let (s1, evs1) = (if loaded_model s \<noteq> None then unload_model s else (s, []));
              (r, s2, evs) = load_fresh E model_name s1
          in (r, s2, evs1 @ evs))"

text \<open>
  Whether a sequence of effects ever allocates memory for a new model (\<open>Construct\<close>,
  \<open>TorchLoad\<close>, \<open>LoadStateDict\<close>, \<open>ToDevice\<close>) while the old model is still held; the
  flag says whether the old model is held at the start.
\<close>

fun overlap_free :: "bool \<Rightarrow> event list \<Rightarrow> bool" where
  "overlap_free old_held [] = True"
| "overlap_free old_held (Release m # es) = overlap_free False es"
| "overlap_free old_held (Download n # es) = overlap_free old_held es"
| "overlap_free old_held (e # es) = (\<not> old_held \<and> overlap_free old_held es)"

definition deserializations :: "event list \<Rightarrow> nat" where
  "deserializations es = length (filter (\<lambda>e. case e of TorchLoad n \<Rightarrow> True | _ \<Rightarrow> False) es)"

section \<open>ModelDownloader\<close>

text \<open>
  The exceptions of \<open>requests\<close> that the retry loop catches (all are
  \<open>RequestException\<close>s), and any other exception raised while the file is written.
\<close>

datatype request_exception = HTTPError | ConnectionError | Timeout | OtherRequestException

datatype download_cause = Transport request_exception | UnboundResponse | OtherException

datatype download_error = NetworkError download_cause

type_synonym bytes = "8 word list"

text \<open>
  A response that passed \<open>raise_for_status\<close>: the \<open>content-length\<close> header if present,
  the chunks that \<open>iter_content\<close> yields, and the exception it raises after them, if any.
\<close>

record response =
  content_length :: "nat option"
  chunks :: "bytes list"
  stream_failure :: "download_cause option"

text \<open>The outcome of \<open>session.get\<close> followed by \<open>raise_for_status\<close>.\<close>

datatype outcome = Fail request_exception | Ok response

text \<open>
  What the downloader does to the outside, in order: a request (with the attempt number),
  a \<open>time.sleep\<close> (seconds), a call of the progress callback (percent).
\<close>

datatype dl_event = Get nat | Sleep nat | Report int

text \<open>
  The retry loop \<open>for attempt in range(retries)\<close>, from attempt number \<open>attempt\<close> with
  \<open>remaining\<close> iterations left and the current \<open>retry_delay\<close>; the argument \<open>net\<close> gives
  the outcome of each request of the session.  \<open>attempt < retries - 1\<close> is
  \<open>remaining > 1\<close>.  If the range is empty the name \<open>response\<close> is unbound afterwards.
\<close>

fun retry_loop ::
  "(nat \<Rightarrow> outcome) \<Rightarrow> nat \<Rightarrow> nat \<Rightarrow> nat \<Rightarrow> (download_cause + response) \<times> dl_event list" where
  "retry_loop net 0 attempt retry_delay = (Inl UnboundResponse, [])"
| "retry_loop net (Suc remaining) attempt retry_delay =
     (case net attempt of
        Ok r \<Rightarrow> (Inr r, [Get attempt])
      | Fail e \<Rightarrow>
          if 0 < remaining
          then (let (res, evs) = retry_loop net remaining (attempt + 1) (retry_delay * 2)
                in (res, [Get attempt, Sleep retry_delay] @ evs))
          else (Inl (Transport e), [Get attempt]))"

text \<open>
  The loop \<open>for data in response.iter_content(block_size)\<close> inside \<open>with open(model_path, 'wb')\<close>:
  each chunk is appended to the file and reported when the total size is known.
\<close>

fun write_chunks ::
  "string \<Rightarrow> nat \<Rightarrow> bytes list \<Rightarrow> (string \<rightharpoonup> bytes) \<Rightarrow> nat \<Rightarrow> (string \<rightharpoonup> bytes) \<times> dl_event list" where
  "write_chunks model_path total_size [] fs downloaded = (fs, [])"
| "write_chunks model_path total_size (data # rest) fs downloaded =
     (let fs1 = fs(model_path \<mapsto> (case fs model_path of None \<Rightarrow> data | Some old \<Rightarrow> old @ data));
          downloaded1 = downloaded + length data;
          evs1 = (if 0 < total_size then [Report (progress (int downloaded1) (int total_size))] else []);
          (fs2, evs2) = write_chunks model_path total_size rest fs1 downloaded1
      in (fs2, evs1 @ evs2))"

text \<open>
  \<open>ModelDownloader.download_model\<close> with a callback; \<open>models_dir\<close> is the root of the
  file system \<open>fs\<close>.  Every handler of the outer \<open>try\<close> removes the file if it exists and
  raises \<open>NetworkError\<close>.
\<close>

definition downloader_download_model ::
  "(nat \<Rightarrow> outcome) \<Rightarrow> string \<Rightarrow> (string \<rightharpoonup> bytes)
     \<Rightarrow> (download_error + string) \<times> (string \<rightharpoonup> bytes) \<times> dl_event list" where
  "downloader_download_model net model_name fs =
     (let model_path = model_name @ ''.pth''
      in if fs model_path \<noteq> None then (Inr model_path, fs, [Report 100])
         else
           let retries = 3; retry_delay = 2
           in case retry_loop net retries 0 retry_delay of
                (Inl e, evs) \<Rightarrow> (Inl (NetworkError e), fs(model_path := None), evs)
              | (Inr response, evs) \<Rightarrow>
                  let total_size = (case content_length response of None \<Rightarrow> 0 | Some n \<Rightarrow> n);
                      (fs1, evs1) =
                        write_chunks model_path total_size (chunks response)
                          (fs(model_path \<mapsto> [])) 0
                  in case stream_failure response of
                       Some e \<Rightarrow> (Inl (NetworkError e), fs1(model_path := None), evs @ evs1)
                     | None \<Rightarrow> (Inr model_path, fs1, evs @ evs1 @ [Report 100]))"

definition requests :: "dl_event list \<Rightarrow> nat list" where
  "requests evs = concat (map (\<lambda>e. case e of Get k \<Rightarrow> [k] | _ \<Rightarrow> []) evs)"

definition sleeps :: "dl_event list \<Rightarrow> nat list" where
  "sleeps evs = concat (map (\<lambda>e. case e of Sleep d \<Rightarrow> [d] | _ \<Rightarrow> []) evs)"

section \<open>The destination rectangles partition the canvas\<close>

lemma filter_eq_upt: "k0 < n \<Longrightarrow> filter (\<lambda>k. k = k0) [0..<n] = [k0]"
proof (induction n)
  case 0 then show ?case by simp
next
  case (Suc n)
  show ?case
  proof (cases "k0 < n")
    case True
    with Suc.IH show ?thesis by simp
  next
    case False
    with Suc.prems have e: "k0 = n" by simp
    have "filter (\<lambda>k. k = n) [0..<n] = []" by (simp add: filter_empty_conv)
    with e show ?thesis by simp
  qed
qed

lemma div_bounds_iff:
  fixes d :: int
  assumes d: "0 < d"
  shows "(q * d \<le> a \<and> a < q * d + d) \<longleftrightarrow> a div d = q"
proof
  assume h: "q * d \<le> a \<and> a < q * d + d"
  have lo: "(a div d) * d \<le> a" using d pos_mod_sign [of d a] div_mult_mod_eq [of a d] by linarith
  have hi: "a < (a div d) * d + d"
    using d pos_mod_bound [of d a] div_mult_mod_eq [of a d] by linarith
  have "q * d < (a div d + 1) * d" using h hi by (simp add: algebra_simps)
  then have 1: "q < a div d + 1" using d by (simp add: mult_less_cancel_right)
  have "(a div d) * d < (q + 1) * d" using h lo by (simp add: algebra_simps)
  then have 2: "a div d < q + 1" using d by (simp add: mult_less_cancel_right)
  from 1 2 show "a div d = q" by simp
next
  assume e: "a div d = q"
  have lo: "(a div d) * d \<le> a"
    using d pos_mod_sign [of d a] div_mult_mod_eq [of a d] by linarith
  have hi: "a < (a div d) * d + d"
    using d pos_mod_bound [of d a] div_mult_mod_eq [of a d] by linarith
  from lo hi e show "q * d \<le> a \<and> a < q * d + d" by simp
qed

lemma cell_index:
  assumes T: "1 \<le> T" and s: "1 \<le> scale" and p0: "0 \<le> px" and pw: "px < w * scale"
    and k: "int k * T < w"
  shows "in_dest1 w T scale (int k * T) px \<longleftrightarrow> k = nat (px div (T * scale))"
proof -
  have pos: "0 < T * scale" using T s by (simp add: mult_pos_pos)
  have a: "(int k * T * scale \<le> px \<and> px < int k * T * scale + T * scale) \<longleftrightarrow> px div (T * scale) = int k"
    using div_bounds_iff [OF pos, where q="int k" and a=px] by (simp add: algebra_simps)
  have "0 \<le> px div (T * scale)" using p0 pos by (simp add: pos_imp_zdiv_nonneg_iff)
  then have b: "px div (T * scale) = int k \<longleftrightarrow> k = nat (px div (T * scale))" by auto
  show ?thesis unfolding in_dest1_def out_lo_def out_hi_def using a b pw by auto
qed

lemma range_index_bound:
  assumes T: "1 \<le> T" and k: "k < nat ((w + T - 1) div T)"
  shows "int k * T < w"
proof -
  have "int k + 1 \<le> (w + T - 1) div T" using k by linarith
  then have "(int k + 1) * T \<le> ((w + T - 1) div T) * T"
    using T by (simp add: mult_right_mono)
  also have "\<dots> \<le> w + T - 1"
    using T pos_mod_sign [of T "w + T - 1"] div_mult_mod_eq [of "w + T - 1" T] by linarith
  finally show ?thesis by (simp add: algebra_simps)
qed

lemma cell_index_in_range:
  assumes T: "1 \<le> T" and s: "1 \<le> scale" and p0: "0 \<le> px" and pw: "px < w * scale"
  shows "nat (px div (T * scale)) < nat ((w + T - 1) div T)"
proof -
  have pos: "0 < T * scale" using T s by (simp add: mult_pos_pos)
  let ?q = "px div (T * scale)"
  have q0: "0 \<le> ?q" using p0 pos by (simp add: pos_imp_zdiv_nonneg_iff)
  have "?q * (T * scale) \<le> px" using div_bounds_iff [OF pos, where q="?q" and a=px] by simp
  then have "(?q * T) * scale < w * scale" using pw by (simp add: algebra_simps)
  then have "?q * T < w" using s by (simp add: mult_less_cancel_right)
  then have le: "(?q + 1) * T \<le> w + T - 1" by (simp add: algebra_simps)
  have Tpos: "0 < T" using T by simp
  have "((?q + 1) * T) div T \<le> (w + T - 1) div T" by (rule zdiv_mono1 [OF le Tpos])
  moreover have "((?q + 1) * T) div T = ?q + 1" using Tpos by simp
  ultimately have "?q + 1 \<le> (w + T - 1) div T" by simp
  then show ?thesis using q0 by linarith
qed

lemma dest_count_1d:
  assumes T: "1 \<le> T" and s: "1 \<le> scale" and p0: "0 \<le> px" and pw: "px < w * scale"
  shows "length (filter (\<lambda>x. in_dest1 w T scale x px) (py_range w T)) = 1"
proof -
  let ?n = "nat ((w + T - 1) div T)"
  let ?k0 = "nat (px div (T * scale))"
  have "filter (\<lambda>x. in_dest1 w T scale x px) (py_range w T) =
        map (\<lambda>k. int k * T) (filter (\<lambda>k. in_dest1 w T scale (int k * T) px) [0..<?n])"
    using T by (simp add: py_range_def filter_map comp_def)
  also have "filter (\<lambda>k. in_dest1 w T scale (int k * T) px) [0..<?n] = filter (\<lambda>k. k = ?k0) [0..<?n]"
    by (rule filter_cong) (auto simp: cell_index [OF T s p0 pw] range_index_bound [OF T])
  also have "\<dots> = [?k0]"
    by (rule filter_eq_upt) (rule cell_index_in_range [OF T s p0 pw])
  finally show ?thesis by simp
qed

lemma grid_filter_length:
  "length (filter (\<lambda>t. case t of (x, y) \<Rightarrow> A x \<and> B y)
     (concat (map (\<lambda>y. map (\<lambda>x. (x, y)) xs) ys))) =
   length (filter A xs) * length (filter B ys)"
proof (induction ys)
  case Nil
  show ?case by simp
next
  case (Cons y ys)
  have "filter (\<lambda>t. case t of (x, y) \<Rightarrow> A x \<and> B y) (map (\<lambda>x. (x, y)) xs) =
        (if B y then map (\<lambda>x. (x, y)) (filter A xs) else [])"
    by (induction xs) auto
  with Cons.IH show ?case by simp
qed

lemma out_hi_eq:
  assumes s: "1 \<le> scale"
  shows "out_hi T scale w x = min w (x + T) * scale"
proof -
  have "min (w * scale) ((x + T) * scale) = min w (x + T) * scale"
    using s by (simp add: min_def mult_le_cancel_right)
  then show ?thesis by (simp add: out_hi_def out_lo_def algebra_simps)
qed

lemma grid_origin_nonneg:
  assumes "x \<in> set (py_range w T)"
  shows "0 \<le> x"
  using assms by (auto simp: py_range_def split: if_splits)

lemma grid_member:
  "(x, y) \<in> set (tile_grid w h T) \<longleftrightarrow> x \<in> set (py_range w T) \<and> y \<in> set (py_range h T)"
  by (auto simp: tile_grid_def)

lemma in_dest1_bounds:
  assumes "1 \<le> scale" and "x \<in> set (py_range w T)" and "in_dest1 w T scale x px"
  shows "0 \<le> px \<and> px < w * scale"
proof -
  have "0 \<le> x * scale" using grid_origin_nonneg [OF assms(2)] assms(1) by simp
  then show ?thesis using assms(3) by (simp add: in_dest1_def out_lo_def out_hi_def)
qed

lemma dest_count_2d:
  assumes "1 \<le> T" and "1 \<le> scale"
    and "0 \<le> px" and "px < W * scale" and "0 \<le> py" and "py < H * scale"
  shows "length (filter (\<lambda>t. in_dest W H T scale t px py) (tile_grid W H T)) = 1"
  using dest_count_1d [of T scale px W] dest_count_1d [of T scale py H] assms
  by (simp add: tile_grid_def in_dest_def grid_filter_length)

text \<open>
  C1.  For every width and height of at least 1, tile size of at least 1 and scale of at
  least 1 (the padding does not enter the destination rectangle): the rectangle written for
  the grid origin \<open>(x, y)\<close> is \<open>[x*scale, min(W, x+T)*scale) \<times> [y*scale, min(H, y+T)*scale)\<close>,
  every pixel of the \<open>(W*scale) \<times> (H*scale)\<close> canvas lies in the rectangle of exactly one
  grid origin, and no rectangle reaches outside the canvas.
\<close>

theorem dest_rects_partition:
  assumes "1 \<le> W" and "1 \<le> H" and "1 \<le> T" and "1 \<le> scale"
  shows "(\<forall>t \<in> set (tile_grid W H T).
            out_lo scale (fst t) = fst t * scale \<and>
            out_hi T scale W (fst t) = min W (fst t + T) * scale \<and>
            out_lo scale (snd t) = snd t * scale \<and>
            out_hi T scale H (snd t) = min H (snd t + T) * scale) \<and>
         (\<forall>px py. 0 \<le> px \<and> px < W * scale \<and> 0 \<le> py \<and> py < H * scale \<longrightarrow>
            length (filter (\<lambda>t. in_dest W H T scale t px py) (tile_grid W H T)) = 1) \<and>
         (\<forall>t \<in> set (tile_grid W H T). \<forall>px py. in_dest W H T scale t px py \<longrightarrow>
            0 \<le> px \<and> px < W * scale \<and> 0 \<le> py \<and> py < H * scale)"
proof (intro conjI ballI allI impI)
  fix t assume "t \<in> set (tile_grid W H T)"
  show "out_lo scale (fst t) = fst t * scale" by (simp add: out_lo_def)
  show "out_lo scale (snd t) = snd t * scale" by (simp add: out_lo_def)
  show "out_hi T scale W (fst t) = min W (fst t + T) * scale" by (rule out_hi_eq [OF assms(4)])
  show "out_hi T scale H (snd t) = min H (snd t + T) * scale" by (rule out_hi_eq [OF assms(4)])
next
  fix px py
  assume "0 \<le> px \<and> px < W * scale \<and> 0 \<le> py \<and> py < H * scale"
  then show "length (filter (\<lambda>t. in_dest W H T scale t px py) (tile_grid W H T)) = 1"
    using dest_count_2d [of T scale px W py H] assms by simp
next
  fix t px py
  assume t: "t \<in> set (tile_grid W H T)" and d: "in_dest W H T scale t px py"
  obtain x y where xy: "t = (x, y)" by (cases t)
  from t xy have mx: "x \<in> set (py_range W T)" and my: "y \<in> set (py_range H T)"
    by (simp_all add: grid_member)
  from d xy have dx: "in_dest1 W T scale x px" and dy: "in_dest1 H T scale y py"
    by (simp_all add: in_dest_def)
  from in_dest1_bounds [OF assms(4) mx dx] in_dest1_bounds [OF assms(4) my dy]
  show "0 \<le> px" and "px < W * scale" and "0 \<le> py" and "py < H * scale" by simp_all
qed

theorem dest_rects_partition_witness:
  "length (filter (\<lambda>t. in_dest 3 2 2 2 t 5 3) (tile_grid 3 2 2)) = 1"
proof -
  have h: "(1::int) \<le> 3" "(1::int) \<le> 2" by simp_all
  note p = dest_rects_partition [OF h(1) h(2) h(2) h(2), THEN conjunct2, THEN conjunct1,
      rule_format, of 5 3]
  show ?thesis by (rule p) simp
qed

section \<open>The crop of a tile\<close>

lemma tile_lo_bounds:
  assumes "0 \<le> P" and "0 \<le> x"
  shows "0 \<le> tile_lo P x \<and> tile_lo P x \<le> x"
  using assms by (simp add: tile_lo_def)

lemma non_pad_lo_eq:
  assumes "0 \<le> P" and "0 \<le> x"
  shows "non_pad_lo P x = x - tile_lo P x"
  using assms by (simp add: non_pad_lo_def tile_lo_def)

lemma non_pad_hi_eq:
  assumes "0 \<le> P" and "0 \<le> x"
  shows "non_pad_hi T P w x = min w (x + T) - tile_lo P x"
proof -
  have "min (min w (x + T + P) - tile_lo P x) (x - tile_lo P x + T) = min w (x + T) - tile_lo P x"
    using assms(1) by (simp add: min_def)
  then show ?thesis by (simp add: non_pad_hi_def tile_hi_def non_pad_lo_eq [OF assms])
qed

text \<open>
  C9.  For an image of width 257 with tile size 256 and scale 4 (any padding \<open>P \<ge> 0\<close>):
  the last grid column starts at 256, its non-padded region has width 1, and the crop taken
  from a model output of the contracted width (four times the padded tile width) has width
  exactly 4, as has the destination region it is written to.
\<close>

theorem last_column_crop_width:
  assumes "0 \<le> P" and "cols img = 257"
    and "cols output_tile = (tile_hi 256 P 257 256 - tile_lo P 256) * 4"
  shows "last (py_range 257 256) = 256 \<and>
         non_pad_hi 256 P 257 256 - non_pad_lo P 256 = 1 \<and>
         cols (tile_part 256 P img 4 output_tile 256 y) = 4 \<and>
         out_hi 256 4 257 256 - out_lo 4 256 = 4"
proof (intro conjI)
  define a where "a = tile_lo P 256"
  have a: "0 \<le> a" "a \<le> 256" using assms(1) by (simp_all add: a_def tile_lo_def)
  have hi: "tile_hi 256 P 257 256 = 257" using assms(1) by (simp add: tile_hi_def)
  have n: "cols output_tile = (257 - a) * 4" using assms(3) hi by (simp add: a_def)
  have lo: "non_pad_lo P 256 = 256 - a"
    using non_pad_lo_eq [OF assms(1), of 256] by (simp add: a_def)
  have nh: "non_pad_hi 256 P 257 256 = 257 - a"
    using non_pad_hi_eq [OF assms(1), of 256 256 257] by (simp add: a_def)
  show "last (py_range 257 256) = 256"
    by (simp add: py_range_def upt_rec)
  show "non_pad_hi 256 P 257 256 - non_pad_lo P 256 = 1"
    by (simp add: lo nh)
  have "cols (tile_part 256 P img 4 output_tile 256 y) =
        slice_len ((257 - a) * 4) ((256 - a) * 4) ((257 - a) * 4)"
    by (simp add: tile_part_def slice2_def out_tile_lo_def out_tile_hi_def lo nh n assms(2))
  also have "\<dots> = 4" using a by (simp add: slice_len_def slice_idx_def)
  finally show "cols (tile_part 256 P img 4 output_tile 256 y) = 4" .
  show "out_hi 256 4 257 256 - out_lo 4 256 = 4"
    by (simp add: out_hi_def out_lo_def)
qed

theorem last_column_crop_width_witness:
  "cols (tile_part 256 16 \<lparr>rows = 1, cols = 257, chans = 3, pix = (\<lambda>i j k. 0)\<rparr> 4
           \<lparr>rows = 4, cols = 68, chans = 3, pix = (\<lambda>i j k. 0)\<rparr> 256 0) = 4"
proof -
  have a: "(0::int) \<le> 16" by simp
  have b: "cols \<lparr>rows = 1, cols = 257, chans = 3, pix = (\<lambda>i j k. 0)\<rparr> = 257" by simp
  have c: "cols \<lparr>rows = 4, cols = 68, chans = 3, pix = (\<lambda>i j k. 0)\<rparr> =
           (tile_hi 256 16 257 256 - tile_lo 16 256) * 4"
    by (simp add: tile_hi_def tile_lo_def)
  note r = last_column_crop_width [OF a b c, of 0, THEN conjunct2, THEN conjunct2, THEN conjunct1]
  show ?thesis by (rule r)
qed

section \<open>The model manager: swapping and reloading\<close>

lemma load_state_dict_free: "overlap_free False (snd (load_state_dict E a w k))"
  by (simp add: load_state_dict_def split: option.splits)

lemma realesrgan_free: "overlap_free False (snd (load_realesrgan_model E n f i))"
  by (simp add: load_realesrgan_model_def Let_def case_prod_beta load_state_dict_free
      split: option.splits)

lemma swinir_free: "overlap_free False (snd (load_swinir_model E n f i))"
  by (simp add: load_swinir_model_def Let_def case_prod_beta load_state_dict_free
      split: option.splits)

lemma download_events:
  "snd (snd (download_model E n s)) = [] \<or> snd (snd (download_model E n s)) = [Download n]"
  by (simp add: download_model_def split: option.splits)

lemma download_keeps_model:
  "loaded_model (fst (snd (download_model E n s))) = loaded_model s \<and>
   current_model_name (fst (snd (download_model E n s))) = current_model_name s"
  by (simp add: download_model_def split: option.splits)

lemma overlap_free_download: 
  assumes "ds = [] \<or> ds = [Download n]"
  shows "overlap_free b (ds @ es) = overlap_free b es"
  using assms by auto

lemma by_type_free:
  "overlap_free False (snd (if c1 then load_realesrgan_model E n f i
                            else if c2 then load_swinir_model E n f i
                            else (Inl (ModelError UnsupportedModelType), [])))"
  by (simp add: realesrgan_free swinir_free)

lemma load_state_dict_no_release: "Release m \<notin> set (snd (load_state_dict E a w k))"
  by (simp add: load_state_dict_def split: option.splits)

lemma by_type_no_release:
  "Release m \<notin> set (snd (if c1 then load_realesrgan_model E n f i
                            else if c2 then load_swinir_model E n f i
                            else (Inl (ModelError UnsupportedModelType), [])))"
  by (simp add: load_realesrgan_model_def load_swinir_model_def Let_def case_prod_beta
      load_state_dict_no_release split: option.splits)

lemma load_state_dict_deser:
  "filter (\<lambda>e. case e of TorchLoad n \<Rightarrow> True | _ \<Rightarrow> False) (snd (load_state_dict E a w k)) = []"
  by (simp add: load_state_dict_def split: option.splits)

lemma by_type_deser:
  "deserializations (snd (if c1 then load_realesrgan_model E n f i
                            else if c2 then load_swinir_model E n f i
                            else (Inl (ModelError UnsupportedModelType), []))) \<le> 1"
  by (simp add: load_realesrgan_model_def load_swinir_model_def Let_def case_prod_beta
      deserializations_def load_state_dict_deser split: option.splits)

lemma load_fresh_cases:
  obtains
    (unknown) "load_fresh E n s = (Inl (ModelError UnknownModel), s, [])"
  | (download_failed) e s2 ds where
      "load_fresh E n s = (Inl e, s2, ds)" and "ds = [] \<or> ds = [Download n]"
      and "loaded_model s2 = loaded_model s" and "current_model_name s2 = current_model_name s"
  | (load_failed) e s2 ds evs3 where
      "load_fresh E n s = (Inl e, s2, ds @ evs3)" and "ds = [] \<or> ds = [Download n]"
      and "loaded_model s2 = loaded_model s" and "current_model_name s2 = current_model_name s"
      and "overlap_free False evs3" and "\<forall>m. Release m \<notin> set evs3"
      and "deserializations evs3 \<le> 1"
  | (loaded) m s2 ds evs3 where
      "load_fresh E n s =
         (Inr m, s2\<lparr>loaded_model := Some m, current_model_name := Some n\<rparr>, ds @ evs3)"
      and "ds = [] \<or> ds = [Download n]"
      and "overlap_free False evs3" and "\<forall>m. Release m \<notin> set evs3"
      and "deserializations evs3 \<le> 1"
proof (cases "get_model_info E n")
  case None
  then have "load_fresh E n s = (Inl (ModelError UnknownModel), s, [])"
    by (simp add: load_fresh_def)
  then show ?thesis by (rule unknown)
next
  case (Some info)
  define D where "D = (if files s n = None then download_model E n s else (Inr (), s, []))"
  obtain d s2 ds where D: "D = (d, s2, ds)" by (cases D)
  have ds: "ds = [] \<or> ds = [Download n]"
    using download_events [of E n s] D by (auto simp: D_def split: if_splits)
  have keep: "loaded_model s2 = loaded_model s" "current_model_name s2 = current_model_name s"
    using download_keeps_model [of E n s] D by (auto simp: D_def split: if_splits)
  show ?thesis
  proof (cases d)
    case (Inl e)
    have "load_fresh E n s = (Inl e, s2, ds)"
      using D Inl by (simp add: load_fresh_def Some D_def [symmetric])
    then show ?thesis using ds keep by (rule download_failed)
  next
    case (Inr u)
    define L where "L = (if contains ''realesrgan'' (lower n)
                        then load_realesrgan_model E n (files s2 n) info
                        else if contains ''swinir'' (lower n)
                        then load_swinir_model E n (files s2 n) info
                        else (Inl (ModelError UnsupportedModelType), []))"
    obtain r evs3 where L: "L = (r, evs3)" by (cases L)
    have f3: "overlap_free False evs3"
      using by_type_free [of "contains ''realesrgan'' (lower n)" E n "files s2 n" info
          "contains ''swinir'' (lower n)"] L
      by (simp add: L_def)
    have n3: "\<forall>m. Release m \<notin> set evs3"
      using by_type_no_release [of _ "contains ''realesrgan'' (lower n)" E n "files s2 n" info
          "contains ''swinir'' (lower n)"] L
      by (simp add: L_def)
    have d3: "deserializations evs3 \<le> 1"
      using by_type_deser [of "contains ''realesrgan'' (lower n)" E n "files s2 n" info
          "contains ''swinir'' (lower n)"] L
      by (simp add: L_def)
    have eq: "load_fresh E n s =
        (case r of Inl e \<Rightarrow> (Inl e, s2, ds @ evs3)
         | Inr m \<Rightarrow> (Inr m, s2\<lparr>loaded_model := Some m, current_model_name := Some n\<rparr>, ds @ evs3))"
      using D Inr L by (simp add: load_fresh_def Some D_def [symmetric] L_def [symmetric])
    show ?thesis
    proof (cases r)
      case (Inl e)
      with eq have "load_fresh E n s = (Inl e, s2, ds @ evs3)" by simp
      then show ?thesis using ds keep f3 n3 d3 by (rule load_failed)
    next
      case (Inr m)
      with eq have "load_fresh E n s =
         (Inr m, s2\<lparr>loaded_model := Some m, current_model_name := Some n\<rparr>, ds @ evs3)" by simp
      then show ?thesis using ds f3 n3 d3 by (rule loaded)
    qed
  qed
qed

lemma deserializations_append:
  "deserializations (xs @ ys) = deserializations xs + deserializations ys"
  by (simp add: deserializations_def)

lemma load_fresh_trace:
  "overlap_free False (snd (snd (load_fresh E n s))) \<and>
   (\<forall>m. Release m \<notin> set (snd (snd (load_fresh E n s)))) \<and>
   deserializations (snd (snd (load_fresh E n s))) \<le> 1"
proof (cases rule: load_fresh_cases [of E n s])
  case unknown
  then show ?thesis by (simp add: deserializations_def)
next
  case (download_failed e s2 ds)
  then show ?thesis by (auto simp: deserializations_def)
next
  case (load_failed e s2 ds evs3)
  then show ?thesis by (auto simp: deserializations_append deserializations_def)
next
  case (loaded m s2 ds evs3)
  then show ?thesis by (auto simp: deserializations_append deserializations_def)
qed

lemma load_fresh_result:
  "(case fst (load_fresh E n s) of
      Inl e \<Rightarrow> loaded_model (fst (snd (load_fresh E n s))) = loaded_model s \<and>
               current_model_name (fst (snd (load_fresh E n s))) = current_model_name s
    | Inr m \<Rightarrow> loaded_model (fst (snd (load_fresh E n s))) = Some m \<and>
               current_model_name (fst (snd (load_fresh E n s))) = Some n)"
proof (cases rule: load_fresh_cases [of E n s])
  case unknown
  then show ?thesis by simp
next
  case (download_failed e s2 ds)
  then show ?thesis by simp
next
  case (load_failed e s2 ds evs3)
  then show ?thesis by simp
next
  case (loaded m s2 ds evs3)
  then show ?thesis by simp
qed

lemma load_model_loaded:
  assumes "loaded_model s = Some m" and "current_model_name s = Some n"
  shows "load_model E n s = (Inr m, s, [])"
  using assms by (simp add: load_model_def)

lemma load_model_swap:
  assumes "loaded_model s = Some mA" and "current_model_name s \<noteq> Some n"
  shows "load_model E n s =
     (fst (load_fresh E n (s\<lparr>loaded_model := None, current_model_name := None\<rparr>)),
      fst (snd (load_fresh E n (s\<lparr>loaded_model := None, current_model_name := None\<rparr>))),
      Release mA # snd (snd (load_fresh E n (s\<lparr>loaded_model := None, current_model_name := None\<rparr>))))"
  using assms by (simp add: load_model_def unload_model_def case_prod_beta)

lemma load_model_none:
  assumes "loaded_model s = None"
  shows "load_model E n s = load_fresh E n s"
  using assms by (simp add: load_model_def case_prod_beta)

text \<open>
  C5.  The manager has a single \<open>loaded_model\<close> field, so it holds at most one model.
  When \<open>load_model\<close> is called while a model is loaded under a different name, the first
  effect is the release of that model (\<open>del self.loaded_model\<close> and the emptied cache);
  the constructor of the new architecture, the deserialisation of its weights and the move
  to the device all come after it, and no further release follows.  Afterwards the manager
  holds the new model, or none if the load failed.
\<close>

theorem swap_releases_before_construct:
  assumes "loaded_model s = Some mA" and "current_model_name s \<noteq> Some B"
  shows "(\<exists>rest. snd (snd (load_model E B s)) = Release mA # rest \<and>
            overlap_free False rest \<and> (\<forall>m. Release m \<notin> set rest)) \<and>
         overlap_free True (snd (snd (load_model E B s))) \<and>
         (case fst (load_model E B s) of
            Inl e \<Rightarrow> loaded_model (fst (snd (load_model E B s))) = None
          | Inr m \<Rightarrow> loaded_model (fst (snd (load_model E B s))) = Some m \<and>
                     current_model_name (fst (snd (load_model E B s))) = Some B)"
proof -
  let ?s1 = "s\<lparr>loaded_model := None, current_model_name := None\<rparr>"
  note sw = load_model_swap [OF assms, of E]
  note tr = load_fresh_trace [of E B ?s1]
  note rs = load_fresh_result [of E B ?s1]
  have 1: "\<exists>rest. snd (snd (load_model E B s)) = Release mA # rest \<and>
            overlap_free False rest \<and> (\<forall>m. Release m \<notin> set rest)"
    using tr by (simp add: sw)
  have 2: "overlap_free True (snd (snd (load_model E B s)))"
    using tr by (simp add: sw)
  have 3: "(case fst (load_model E B s) of
            Inl e \<Rightarrow> loaded_model (fst (snd (load_model E B s))) = None
          | Inr m \<Rightarrow> loaded_model (fst (snd (load_model E B s))) = Some m \<and>
                     current_model_name (fst (snd (load_model E B s))) = Some B)"
    using rs by (simp add: sw split: sum.splits)
  from 1 2 3 show ?thesis by blast
qed

theorem swap_releases_before_construct_witness:
  "overlap_free True (snd (snd (load_model
     \<lparr>get_model_info = (\<lambda>n. Some \<lparr>info_scale = Some 4, info_url = None\<rparr>),
      swinir_importable = False, strict_match = (\<lambda>a sd. True), fetch = (\<lambda>u. None)\<rparr>
     ''realesrgan-b''
     \<lparr>loaded_model = Some \<lparr>model_arch = RRDBNet 23 4, weights = 1\<rparr>,
      current_model_name = Some ''realesrgan-a'',
      files = [''realesrgan-b'' \<mapsto> [''params'' \<mapsto> 7]]\<rparr>)))"
  by (rule swap_releases_before_construct [THEN conjunct2, THEN conjunct1]) simp_all

text \<open>
  C7.  After a successful \<open>load_model\<close> of a name, a second call with the same name
  returns the same model object, leaves the manager unchanged and has no effect at all (in
  particular no \<open>torch.load\<close>); the first call deserialised at most once.
\<close>

theorem load_model_twice:
  assumes "load_model E n s = (Inr m, s', evs)"
  shows "load_model E n s' = (Inr m, s', []) \<and> deserializations evs \<le> 1"
proof (cases "loaded_model s")
  case None
  with assms have f: "load_fresh E n s = (Inr m, s', evs)" by (simp add: load_model_none)
  from load_fresh_result [of E n s] f
  have "loaded_model s' = Some m" "current_model_name s' = Some n" by simp_all
  then have "load_model E n s' = (Inr m, s', [])" by (rule load_model_loaded)
  moreover from load_fresh_trace [of E n s] f have "deserializations evs \<le> 1" by simp
  ultimately show ?thesis by simp
next
  case (Some m0)
  show ?thesis
  proof (cases "current_model_name s = Some n")
    case True
    from load_model_loaded [OF Some True, of E] assms
    have "m = m0" "s' = s" "evs = []" by simp_all
    then show ?thesis using load_model_loaded [OF Some True, of E]
      by (simp add: deserializations_def)
  next
    case False
    let ?s1 = "s\<lparr>loaded_model := None, current_model_name := None\<rparr>"
    from load_model_swap [OF Some False, of E] assms
    have f: "fst (load_fresh E n ?s1) = Inr m" "fst (snd (load_fresh E n ?s1)) = s'"
      "evs = Release m0 # snd (snd (load_fresh E n ?s1))" by simp_all
    from load_fresh_result [of E n ?s1] f
    have "loaded_model s' = Some m" "current_model_name s' = Some n" by simp_all
    then have "load_model E n s' = (Inr m, s', [])" by (rule load_model_loaded)
    moreover from load_fresh_trace [of E n ?s1] f have "deserializations evs \<le> 1"
      by (simp add: deserializations_def)
    ultimately show ?thesis by simp
  qed
qed

lemma load_realesrgan_example:
  "load_model
     \<lparr>get_model_info = (\<lambda>n. Some \<lparr>info_scale = Some 4, info_url = None\<rparr>),
      swinir_importable = False, strict_match = (\<lambda>a sd. True), fetch = (\<lambda>u. None)\<rparr>
     ''realesrgan''
     \<lparr>loaded_model = None, current_model_name = None,
      files = [''realesrgan'' \<mapsto> [''params'' \<mapsto> 2, ''params_ema'' \<mapsto> 1]]\<rparr>
   = (Inr \<lparr>model_arch = RRDBNet 23 4, weights = 1\<rparr>,
      \<lparr>loaded_model = Some \<lparr>model_arch = RRDBNet 23 4, weights = 1\<rparr>,
       current_model_name = Some ''realesrgan'',
       files = [''realesrgan'' \<mapsto> [''params'' \<mapsto> 2, ''params_ema'' \<mapsto> 1]]\<rparr>,
      [Construct (RRDBNet 23 4), TorchLoad ''realesrgan'', LoadStateDict 1, ToDevice])"
proof -
  have c1: "contains ''realesrgan'' (lower ''realesrgan'')"
    by (simp add: contains_def lower_def char_lower_def upt_rec)
  have c2: "\<not> contains ''anime'' ''realesrgan''"
    by (simp add: contains_def upt_rec)
  show ?thesis
    by (simp add: load_model_def load_fresh_def load_realesrgan_model_def load_state_dict_def
        scale_of_def c1 c2 Let_def)
qed

theorem load_model_twice_witness:
  "load_model
     \<lparr>get_model_info = (\<lambda>n. Some \<lparr>info_scale = Some 4, info_url = None\<rparr>),
      swinir_importable = False, strict_match = (\<lambda>a sd. True), fetch = (\<lambda>u. None)\<rparr>
     ''realesrgan''
     \<lparr>loaded_model = Some \<lparr>model_arch = RRDBNet 23 4, weights = 1\<rparr>,
      current_model_name = Some ''realesrgan'',
      files = [''realesrgan'' \<mapsto> [''params'' \<mapsto> 2, ''params_ema'' \<mapsto> 1]]\<rparr>
   = (Inr \<lparr>model_arch = RRDBNet 23 4, weights = 1\<rparr>,
      \<lparr>loaded_model = Some \<lparr>model_arch = RRDBNet 23 4, weights = 1\<rparr>,
       current_model_name = Some ''realesrgan'',
       files = [''realesrgan'' \<mapsto> [''params'' \<mapsto> 2, ''params_ema'' \<mapsto> 1]]\<rparr>,
      []) \<and>
   deserializations
     [Construct (RRDBNet 23 4), TorchLoad ''realesrgan'', LoadStateDict 1, ToDevice] \<le> 1"
  by (rule load_model_twice [OF load_realesrgan_example])

text \<open>
  C8.  The RealESRGAN loader takes the key \<open>params_ema\<close> when the weight file has it.  The
  SwinIR loader does not: with a weight file holding both \<open>params_ema\<close> (state dict 1) and
  \<open>params\<close> (state dict 2), a SwinIR model is loaded with the standard set, state dict 2.
\<close>

theorem swinir_load_ignores_ema:
  "load_model
     \<lparr>get_model_info = (\<lambda>n. Some \<lparr>info_scale = Some 4, info_url = None\<rparr>),
      swinir_importable = True, strict_match = (\<lambda>a sd. True), fetch = (\<lambda>u. None)\<rparr>
     ''swinir''
     \<lparr>loaded_model = None, current_model_name = None,
      files = [''swinir'' \<mapsto> [''params'' \<mapsto> 2, ''params_ema'' \<mapsto> 1]]\<rparr>
   = (Inr \<lparr>model_arch = SwinIR 4, weights = 2\<rparr>,
      \<lparr>loaded_model = Some \<lparr>model_arch = SwinIR 4, weights = 2\<rparr>,
       current_model_name = Some ''swinir'',
       files = [''swinir'' \<mapsto> [''params'' \<mapsto> 2, ''params_ema'' \<mapsto> 1]]\<rparr>,
      [Construct (SwinIR 4), TorchLoad ''swinir'', LoadStateDict 2, ToDevice])"
proof -
  have c1: "\<not> contains ''realesrgan'' (lower ''swinir'')"
    by (simp add: contains_def lower_def char_lower_def upt_rec)
  have c3: "contains ''swinir'' (lower ''swinir'')"
    by (simp add: contains_def lower_def char_lower_def upt_rec)
  show ?thesis
    by (simp add: load_model_def load_fresh_def load_swinir_model_def load_state_dict_def
        scale_of_def c1 c3 Let_def)
qed

section \<open>The downloader: retries and cleanup\<close>

lemma retry_loop_3:
  "retry_loop net 3 0 2 =
     (case net 0 of
        Ok r \<Rightarrow> (Inr r, [Get 0])
      | Fail e0 \<Rightarrow>
          (case net 1 of
             Ok r \<Rightarrow> (Inr r, [Get 0, Sleep 2, Get 1])
           | Fail e1 \<Rightarrow>
               (case net 2 of
                  Ok r \<Rightarrow> (Inr r, [Get 0, Sleep 2, Get 1, Sleep 4, Get 2])
                | Fail e2 \<Rightarrow> (Inl (Transport e2), [Get 0, Sleep 2, Get 1, Sleep 4, Get 2]))))"
  by (simp add: eval_nat_numeral split: outcome.splits)

lemma write_chunks_events:
  "requests (snd (write_chunks p t cs fs d)) = [] \<and> sleeps (snd (write_chunks p t cs fs d)) = []"
  by (induction cs arbitrary: fs d) (simp_all add: requests_def sleeps_def Let_def case_prod_beta)

lemma requests_append: "requests (xs @ ys) = requests xs @ requests ys"
  by (simp add: requests_def)

lemma sleeps_append: "sleeps (xs @ ys) = sleeps xs @ sleeps ys"
  by (simp add: sleeps_def)

lemma retry_events:
  "(requests (snd (retry_loop net 3 0 2)), sleeps (snd (retry_loop net 3 0 2))) \<in>
     {([0], []), ([0, 1], [2]), ([0, 1, 2], [2, 4])}"
  by (simp add: retry_loop_3 requests_def sleeps_def split: outcome.splits)

lemma download_events_shape:
  assumes "fs (n @ ''.pth'') = None"
  shows "requests (snd (snd (downloader_download_model net n fs))) = requests (snd (retry_loop net 3 0 2)) \<and>
         sleeps (snd (snd (downloader_download_model net n fs))) = sleeps (snd (retry_loop net 3 0 2))"
proof (cases "fst (retry_loop net 3 0 2)")
  case (Inl e)
  then show ?thesis using assms
    by (simp add: downloader_download_model_def Let_def case_prod_beta)
next
  case (Inr r)
  have w: "requests [Report 100] = []" "sleeps [Report 100] = []"
    by (simp_all add: requests_def sleeps_def)
  show ?thesis using assms Inr
    by (simp add: downloader_download_model_def Let_def case_prod_beta requests_append
        sleeps_append write_chunks_events w split: option.splits)
qed

lemma download_failure_removes_file:
  assumes "fst (downloader_download_model net n fs) = Inl e"
  shows "fst (snd (downloader_download_model net n fs)) (n @ ''.pth'') = None"
  using assms
  by (simp add: downloader_download_model_def Let_def case_prod_beta
      split: if_splits sum.splits option.splits)

lemma download_all_fail:
  assumes "fs (n @ ''.pth'') = None" and "net 0 = Fail e0" and "net 1 = Fail e1" and "net 2 = Fail e2"
  shows "downloader_download_model net n fs =
           (Inl (NetworkError (Transport e2)), fs, [Get 0, Sleep 2, Get 1, Sleep 4, Get 2])"
proof -
  have "fs((n @ ''.pth'') := None) = fs" using assms(1) by (simp add: fun_upd_idem)
  then show ?thesis using assms
    by (simp add: downloader_download_model_def retry_loop_3)
qed

lemma download_stream:
  assumes "fs (n @ ''.pth'') = None" and "fst (retry_loop net 3 0 2) = Inr r"
  shows "fst (downloader_download_model net n fs) =
           (case stream_failure r of
              Some c \<Rightarrow> Inl (NetworkError c)
            | None \<Rightarrow> Inr (n @ ''.pth''))"
  using assms
  by (simp add: downloader_download_model_def Let_def case_prod_beta split: option.splits)

text \<open>
  C6, the claim as stated fails: a connection error raised by \<open>iter_content\<close> while the
  body is streamed, after the first request succeeded, is not retried.  The call makes the
  one request, removes the partial file and raises \<open>NetworkError\<close>.
\<close>

theorem streaming_failure_not_retried:
  "downloader_download_model
     (\<lambda>k. Ok \<lparr>content_length = None, chunks = [[1, 2]],
               stream_failure = Some (Transport ConnectionError)\<rparr>)
     ''m'' Map.empty =
     (Inl (NetworkError (Transport ConnectionError)), Map.empty, [Get 0])"
proof -
  have "(Map.empty :: string \<rightharpoonup> bytes)(''m.pth'' \<mapsto> [1, 2], ''m.pth'' := None) = Map.empty"
    by (rule ext) simp
  then show ?thesis
    by (simp add: downloader_download_model_def retry_loop_3 Let_def)
qed

text \<open>
  C6, amended.  When the file is not there yet, a request exception raised by
  \<open>session.get\<close> or \<open>raise_for_status\<close> (HTTP error status, connection error, timeout) is
  retried: a failed first request is followed by a sleep of 2 seconds and a second request,
  a failed second request by a sleep of 4 seconds and a third request, and there is no
  fourth.  A request that succeeds ends the retries; an exception raised afterwards while
  the body is streamed is not retried.  The call fails exactly when all three requests fail
  or the stream of the successful response fails; the error is then a \<open>NetworkError\<close>
  carrying the last exception, and no file is left at the model path.
\<close>

theorem download_request_retries_and_cleanup:
  assumes "fs (model_name @ ''.pth'') = None"
  shows "(\<forall>r. net 0 = Ok r \<longrightarrow>
            requests (snd (snd (downloader_download_model net model_name fs))) = [0] \<and>
            sleeps (snd (snd (downloader_download_model net model_name fs))) = []) \<and>
         (\<forall>e r. net 0 = Fail e \<and> net 1 = Ok r \<longrightarrow>
            requests (snd (snd (downloader_download_model net model_name fs))) = [0, 1] \<and>
            sleeps (snd (snd (downloader_download_model net model_name fs))) = [2]) \<and>
         (\<forall>e e'. net 0 = Fail e \<and> net 1 = Fail e' \<longrightarrow>
            requests (snd (snd (downloader_download_model net model_name fs))) = [0, 1, 2] \<and>
            sleeps (snd (snd (downloader_download_model net model_name fs))) = [2, 4]) \<and>
         (\<forall>e0 e1 e2. net 0 = Fail e0 \<and> net 1 = Fail e1 \<and> net 2 = Fail e2 \<longrightarrow>
            downloader_download_model net model_name fs =
              (Inl (NetworkError (Transport e2)), fs, [Get 0, Sleep 2, Get 1, Sleep 4, Get 2])) \<and>
         (\<forall>r. fst (retry_loop net 3 0 2) = Inr r \<longrightarrow>
            fst (downloader_download_model net model_name fs) =
              (case stream_failure r of
                 Some c \<Rightarrow> Inl (NetworkError c)
               | None \<Rightarrow> Inr (model_name @ ''.pth''))) \<and>
         (\<forall>e. fst (downloader_download_model net model_name fs) = Inl e \<longrightarrow>
            (\<exists>c. e = NetworkError c) \<and>
            fst (snd (downloader_download_model net model_name fs)) (model_name @ ''.pth'') = None)"
proof -
  note sh = download_events_shape [where fs=fs and n=model_name and net=net]
  have 1: "\<forall>r. net 0 = Ok r \<longrightarrow>
            requests (snd (snd (downloader_download_model net model_name fs))) = [0] \<and>
            sleeps (snd (snd (downloader_download_model net model_name fs))) = []"
    using sh assms by (simp add: retry_loop_3 requests_def sleeps_def)
  have 2: "\<forall>e r. net 0 = Fail e \<and> net 1 = Ok r \<longrightarrow>
            requests (snd (snd (downloader_download_model net model_name fs))) = [0, 1] \<and>
            sleeps (snd (snd (downloader_download_model net model_name fs))) = [2]"
    using sh assms by (simp add: retry_loop_3 requests_def sleeps_def)
  have 3: "\<forall>e e'. net 0 = Fail e \<and> net 1 = Fail e' \<longrightarrow>
            requests (snd (snd (downloader_download_model net model_name fs))) = [0, 1, 2] \<and>
            sleeps (snd (snd (downloader_download_model net model_name fs))) = [2, 4]"
    using sh assms by (simp add: retry_loop_3 requests_def sleeps_def split: outcome.splits)
  have 4: "\<forall>e0 e1 e2. net 0 = Fail e0 \<and> net 1 = Fail e1 \<and> net 2 = Fail e2 \<longrightarrow>
            downloader_download_model net model_name fs =
              (Inl (NetworkError (Transport e2)), fs, [Get 0, Sleep 2, Get 1, Sleep 4, Get 2])"
    using download_all_fail [where fs=fs and n=model_name and net=net] assms by blast
  have 5: "\<forall>r. fst (retry_loop net 3 0 2) = Inr r \<longrightarrow>
            fst (downloader_download_model net model_name fs) =
              (case stream_failure r of
                 Some c \<Rightarrow> Inl (NetworkError c)
               | None \<Rightarrow> Inr (model_name @ ''.pth''))"
    using download_stream [where fs=fs and n=model_name and net=net] assms by blast
  have 6: "\<forall>e. fst (downloader_download_model net model_name fs) = Inl e \<longrightarrow>
            (\<exists>c. e = NetworkError c) \<and>
            fst (snd (downloader_download_model net model_name fs)) (model_name @ ''.pth'') = None"
  proof (intro allI impI conjI)
    fix e
    show "\<exists>c. e = NetworkError c" by (cases e) simp
    assume "fst (downloader_download_model net model_name fs) = Inl e"
    then show "fst (snd (downloader_download_model net model_name fs)) (model_name @ ''.pth'') = None"
      by (rule download_failure_removes_file)
  qed
  from 1 2 3 4 5 6 show ?thesis by blast
qed

theorem download_request_retries_and_cleanup_witness:
  "requests (snd (snd (downloader_download_model
      (\<lambda>k. if k = 0 then Fail Timeout
            else Ok \<lparr>content_length = Some 2, chunks = [[1, 2]], stream_failure = None\<rparr>)
      ''m'' Map.empty))) = [0, 1] \<and>
   sleeps (snd (snd (downloader_download_model
      (\<lambda>k. if k = 0 then Fail Timeout
            else Ok \<lparr>content_length = Some 2, chunks = [[1, 2]], stream_failure = None\<rparr>)
      ''m'' Map.empty))) = [2]"
proof -
  note t = download_request_retries_and_cleanup [where fs="Map.empty" and model_name="''m''"
      and net="\<lambda>k. if k = 0 then Fail Timeout
            else Ok \<lparr>content_length = Some 2, chunks = [[1, 2]], stream_failure = None\<rparr>"]
  note r = t [OF refl, THEN conjunct2, THEN conjunct1, rule_format,
      of Timeout "\<lparr>content_length = Some 2, chunks = [[1, 2]], stream_failure = None\<rparr>"]
  show ?thesis by (rule r) simp
qed

section \<open>Floating-point rounding\<close>

lemma pow2_power_int: "pow2 e = power_int 2 e"
  by (simp add: pow2_def power_int_def field_simps)

lemma pow2_pos: "0 < pow2 e"
  by (simp add: pow2_power_int)

lemma pow2_add: "pow2 (a + b) = pow2 a * pow2 b"
  by (simp add: pow2_power_int power_int_add)

lemma pow2_plus1: "pow2 (a + 1) = 2 * pow2 a"
proof -
  have "pow2 1 = 2" by (simp add: pow2_def)
  then show ?thesis using pow2_add [of a 1] by simp
qed

lemma pow2_mono: "a \<le> b \<Longrightarrow> pow2 a \<le> pow2 b"
  by (simp add: pow2_power_int power_int_increasing)

lemma pow2_less_imp: 
  assumes "pow2 a < pow2 b" 
  shows "a < b"
proof (rule ccontr)
  assume "\<not> a < b"
  then have "pow2 b \<le> pow2 a" by (simp add: pow2_mono)
  with assms show False by simp
qed

lemma pow2_nat: "pow2 (int n) = 2 ^ n"
  by (simp add: pow2_def)

lemma pow2_div: "x / pow2 e = x * pow2 (- e)"
  by (simp add: pow2_power_int power_int_minus field_simps)

lemma binary_exponent_bounds:
  assumes "0 < x"
  shows "pow2 (binary_exponent x) \<le> x \<and> x < pow2 (binary_exponent x + 1)"
proof (cases "1 \<le> x")
  case True
  let ?n = "\<lfloor>x\<rfloor>"
  have n: "0 < ?n" using True by simp
  have b: "2 ^ nat (bitlen ?n - 1) \<le> ?n" "?n < 2 ^ nat (bitlen ?n)"
    using bitlen_bounds [OF n] by simp_all
  have bl: "1 \<le> bitlen ?n" using n by (simp add: bitlen_alt_def)
  let ?d = "bitlen ?n - 1"
  have lo: "pow2 ?d \<le> x"
  proof -
    have "pow2 ?d = of_int (2 ^ nat ?d)" using bl by (simp add: pow2_def)
    also have "\<dots> \<le> of_int ?n" using b(1) by (simp only: of_int_le_iff)
    also have "\<dots> \<le> x" by simp
    finally show ?thesis .
  qed
  have hi: "x < pow2 (?d + 1)"
  proof -
    have "?n + 1 \<le> 2 ^ nat (bitlen ?n)" using b(2) by simp
    then have "(of_int (?n + 1) :: rat) \<le> of_int (2 ^ nat (bitlen ?n))" by (simp only: of_int_le_iff)
    moreover have "x < of_int (?n + 1)" by simp linarith
    moreover have "pow2 (?d + 1) = of_int (2 ^ nat (bitlen ?n))" using bl by (simp add: pow2_def)
    ultimately show ?thesis by simp
  qed
  from lo hi True show ?thesis by (simp add: binary_exponent_def Let_def)
next
  case False
  let ?y = "1 / x"
  let ?n = "\<lfloor>?y\<rfloor>"
  have y1: "1 < ?y" using False assms by simp
  have n: "0 < ?n" using y1 by simp
  have b: "2 ^ nat (bitlen ?n - 1) \<le> ?n" "?n < 2 ^ nat (bitlen ?n)"
    using bitlen_bounds [OF n] by simp_all
  have bl: "1 \<le> bitlen ?n" using n by (simp add: bitlen_alt_def)
  let ?d = "- bitlen ?n"
  have ylt: "?y < 2 ^ nat (bitlen ?n)"
  proof -
    have "?n + 1 \<le> 2 ^ nat (bitlen ?n)" using b(2) by simp
    then have "(of_int (?n + 1) :: rat) \<le> of_int (2 ^ nat (bitlen ?n))" by (simp only: of_int_le_iff)
    moreover have "?y < of_int (?n + 1)" by simp linarith
    ultimately show ?thesis by simp
  qed
  have yge: "2 ^ nat (bitlen ?n - 1) \<le> ?y"
  proof -
    have "(of_int (2 ^ nat (bitlen ?n - 1)) :: rat) \<le> of_int ?n" using b(1) by (simp only: of_int_le_iff)
    also have "\<dots> \<le> ?y" by simp
    finally show ?thesis by simp
  qed
  have lo: "pow2 ?d < x"
  proof -
    have "pow2 ?d = 1 / 2 ^ nat (bitlen ?n)" using bl by (simp add: pow2_def)
    moreover have "1 / 2 ^ nat (bitlen ?n) < x"
      using ylt assms by (simp add: field_simps)
    ultimately show ?thesis by simp
  qed
  have hi: "x \<le> pow2 (?d + 1)"
  proof -
    have "pow2 (?d + 1) = 1 / 2 ^ nat (bitlen ?n - 1)"
    proof (cases "bitlen ?n = 1")
      case True then show ?thesis by (simp add: pow2_def)
    next
      case False
      with bl have "?d + 1 < 0" by simp
      then show ?thesis by (simp add: pow2_def)
    qed
    moreover have "x \<le> 1 / 2 ^ nat (bitlen ?n - 1)"
      using yge assms by (simp add: field_simps)
    ultimately show ?thesis by simp
  qed
  show ?thesis
  proof (cases "pow2 (?d + 1) \<le> x")
    case True
    with hi have e: "x = pow2 (?d + 1)" by simp
    have "pow2 (?d + 1) < pow2 (?d + 1 + 1)"
      using pow2_plus1 [of "?d + 1"] pow2_pos [of "?d + 1"] by linarith
    with True False e show ?thesis by (simp add: binary_exponent_def Let_def)
  next
    case F2: False
    with lo False show ?thesis by (simp add: binary_exponent_def Let_def)
  qed
qed

lemma round_half_even_floor: "\<lfloor>x\<rfloor> \<le> round_half_even x \<and> round_half_even x \<le> \<lfloor>x\<rfloor> + 1"
  by (simp add: round_half_even_def Let_def)

lemma round_half_even_of_int: "round_half_even (of_int m) = m"
  by (simp add: round_half_even_def Let_def)

lemma round_half_even_mono:
  assumes "x \<le> y"
  shows "round_half_even x \<le> round_half_even y"
proof (cases "\<lfloor>x\<rfloor> = \<lfloor>y\<rfloor>")
  case True
  have "x - of_int \<lfloor>y\<rfloor> \<le> y - of_int \<lfloor>y\<rfloor>" using assms by simp
  then show ?thesis by (simp add: round_half_even_def Let_def True)
next
  case False
  have "\<lfloor>x\<rfloor> \<le> \<lfloor>y\<rfloor>" using assms by (rule floor_mono)
  with False have "\<lfloor>x\<rfloor> + 1 \<le> \<lfloor>y\<rfloor>" by simp
  then show ?thesis
    using round_half_even_floor [of x] round_half_even_floor [of y] by linarith
qed

lemma round_half_even_le:
  assumes "x \<le> of_int m"
  shows "round_half_even x \<le> m"
  using round_half_even_mono [OF assms] by (simp add: round_half_even_of_int)

lemma round_half_even_ge:
  assumes "of_int m \<le> x"
  shows "m \<le> round_half_even x"
  using round_half_even_mono [OF assms] by (simp add: round_half_even_of_int)

lemma fl_pos_upper:
  assumes "0 < x"
  shows "fl_pos p x \<le> pow2 (binary_exponent x + 1)"
proof -
  define e where "e = binary_exponent x - (int p - 1)"
  have "x / pow2 e \<le> pow2 (binary_exponent x + 1) / pow2 e"
    using binary_exponent_bounds [OF assms] pow2_pos [of e] by (simp add: divide_right_mono)
  also have "pow2 (binary_exponent x + 1) / pow2 e = pow2 (int p)"
    using pow2_add [of "int p" e] pow2_pos [of e] by (simp add: e_def)
  also have "pow2 (int p) = of_int (2 ^ p)" by (simp add: pow2_nat)
  finally have "round_half_even (x / pow2 e) \<le> 2 ^ p" by (rule round_half_even_le)
  then have "(of_int (round_half_even (x / pow2 e)) :: rat) \<le> of_int (2 ^ p)"
    by (simp only: of_int_le_iff)
  then have "of_int (round_half_even (x / pow2 e)) * pow2 e \<le> of_int (2 ^ p) * pow2 e"
    using pow2_pos [of e] by (simp add: mult_right_mono)
  also have "of_int (2 ^ p) * pow2 e = pow2 (binary_exponent x + 1)"
    using pow2_add [of "int p" e] by (simp add: e_def pow2_nat)
  finally show ?thesis by (simp add: fl_pos_def Let_def e_def)
qed

lemma fl_pos_lower:
  assumes "0 < x" and "1 \<le> p"
  shows "pow2 (binary_exponent x) \<le> fl_pos p x"
proof -
  obtain q where q: "p = Suc q" using assms(2) by (cases p) auto
  define e where "e = binary_exponent x - int q"
  have ee: "binary_exponent x - (int p - 1) = e" by (simp add: e_def q)
  have sum: "int q + e = binary_exponent x" by (simp add: e_def)
  have split: "pow2 (binary_exponent x) = pow2 (int q) * pow2 e"
    using pow2_add [of "int q" e] by (simp only: sum)
  have "pow2 (binary_exponent x) / pow2 e \<le> x / pow2 e"
    using binary_exponent_bounds [OF assms(1)] pow2_pos [of e] by (simp add: divide_right_mono)
  moreover have "pow2 (binary_exponent x) / pow2 e = pow2 (int q)"
    using pow2_pos [of e] by (simp add: split)
  moreover have "pow2 (int q) = of_int (2 ^ q)" by (simp add: pow2_nat)
  ultimately have "of_int (2 ^ q) \<le> x / pow2 e" by simp
  then have "2 ^ q \<le> round_half_even (x / pow2 e)" by (rule round_half_even_ge)
  then have "(of_int (2 ^ q) :: rat) \<le> of_int (round_half_even (x / pow2 e))"
    by (simp only: of_int_le_iff)
  then have "of_int (2 ^ q) * pow2 e \<le> of_int (round_half_even (x / pow2 e)) * pow2 e"
    using pow2_pos [of e] by (simp add: mult_right_mono)
  moreover have "of_int (2 ^ q) * pow2 e = pow2 (binary_exponent x)"
    by (simp add: split pow2_nat)
  ultimately show ?thesis by (simp add: fl_pos_def Let_def ee)
qed

lemma fl_pos_mono:
  assumes "0 < x" and "x \<le> y" and "1 \<le> p"
  shows "fl_pos p x \<le> fl_pos p y"
proof -
  have y: "0 < y" using assms by simp
  have "pow2 (binary_exponent x) < pow2 (binary_exponent y + 1)"
    using binary_exponent_bounds [OF assms(1)] binary_exponent_bounds [OF y] assms(2) by linarith
  then have le: "binary_exponent x \<le> binary_exponent y"
    using pow2_less_imp [of "binary_exponent x" "binary_exponent y + 1"] by simp
  show ?thesis
  proof (cases "binary_exponent x = binary_exponent y")
    case True
    define e where "e = binary_exponent y - (int p - 1)"
    have "x / pow2 e \<le> y / pow2 e" using assms(2) pow2_pos [of e] by (simp add: divide_right_mono)
    then have "round_half_even (x / pow2 e) \<le> round_half_even (y / pow2 e)"
      by (rule round_half_even_mono)
    then have "(of_int (round_half_even (x / pow2 e)) :: rat) \<le> of_int (round_half_even (y / pow2 e))"
      by (simp only: of_int_le_iff)
    then have "of_int (round_half_even (x / pow2 e)) * pow2 e \<le> of_int (round_half_even (y / pow2 e)) * pow2 e"
      using pow2_pos [of e] by (simp add: mult_right_mono)
    then show ?thesis by (simp add: fl_pos_def Let_def True e_def)
  next
    case False
    with le have "binary_exponent x + 1 \<le> binary_exponent y" by simp
    then have "pow2 (binary_exponent x + 1) \<le> pow2 (binary_exponent y)" by (rule pow2_mono)
    then show ?thesis
      using fl_pos_upper [OF assms(1), of p] fl_pos_lower [OF y assms(3)] by linarith
  qed
qed

lemma fl_nonneg:
  assumes "0 \<le> x" and "1 \<le> p"
  shows "0 \<le> fl p x"
proof (cases "x = 0")
  case True then show ?thesis by (simp add: fl_def)
next
  case False
  with assms have x: "0 < x" by simp
  from fl_pos_lower [OF x assms(2)] pow2_pos [of "binary_exponent x"] x
  show ?thesis by (simp add: fl_def)
qed

lemma fl_mono:
  assumes "0 \<le> x" and "x \<le> y" and "1 \<le> p"
  shows "fl p x \<le> fl p y"
proof (cases "x = 0")
  case True
  have "0 \<le> y" using assms by simp
  from fl_nonneg [OF this assms(3)] True show ?thesis by (simp add: fl_def)
next
  case False
  with assms have x: "0 < x" by simp
  with assms have y: "0 < y" by simp
  from fl_pos_mono [OF x assms(2) assms(3)] x y show ?thesis by (simp add: fl_def)
qed

lemma progress_mono:
  assumes "0 \<le> k" and "k \<le> k'" and "0 < n"
  shows "progress k n \<le> progress k' n"
proof -
  let ?q = "\<lambda>j. (of_int j :: rat) / of_int n"
  have q0: "0 \<le> ?q k" using assms by simp
  have qq: "?q k \<le> ?q k'" using assms by (simp add: divide_right_mono)
  have p: "(1::nat) \<le> 53" by simp
  have a: "fl 53 (?q k) \<le> fl 53 (?q k')" by (rule fl_mono [OF q0 qq p])
  have a0: "0 \<le> fl 53 (?q k)" by (rule fl_nonneg [OF q0 p])
  have b0: "0 \<le> fl 53 (?q k) * 100" using a0 by simp
  have bb: "fl 53 (?q k) * 100 \<le> fl 53 (?q k') * 100" using a by simp
  have c: "fl 53 (fl 53 (?q k) * 100) \<le> fl 53 (fl 53 (?q k') * 100)" by (rule fl_mono [OF b0 bb p])
  have c0: "0 \<le> fl 53 (fl 53 (?q k) * 100)" by (rule fl_nonneg [OF b0 p])
  have c1: "0 \<le> fl 53 (fl 53 (?q k') * 100)" using c c0 by simp
  show ?thesis using c c0 c1 by (simp add: progress_def py_int_def floor_mono)
qed

section \<open>Evaluating the rounding on numerals\<close>

lemma floor_rat_numeral_div: "\<lfloor>numeral a / numeral b :: rat\<rfloor> = numeral a div numeral b"
  by (metis floor_divide_of_int_eq of_int_numeral)

lemma floor_rat_one_div: "\<lfloor>1 / numeral b :: rat\<rfloor> = 1 div numeral b"
  by (metis floor_divide_of_int_eq of_int_numeral of_int_1)

lemmas float_eval = fl_def fl_pos_def binary_exponent_def pow2_def round_half_even_def
  py_int_def Let_def compute_bitlen floor_rat_numeral_div floor_rat_one_div

lemma progress_of_six:
  "progress 1 6 = 16" "progress 2 6 = 33" "progress 3 6 = 50"
  "progress 4 6 = 66" "progress 5 6 = 83" "progress 6 6 = 100"
  by (simp_all add: progress_def float_eval)

lemma progress_complete:
  assumes "0 < n"
  shows "progress n n = 100"
proof -
  have "(of_int n :: rat) / of_int n = 1" using assms by simp
  moreover have "py_int (fl 53 (fl 53 1 * 100)) = 100" by (simp add: float_eval)
  ultimately show ?thesis by (simp add: progress_def)
qed

lemma pixel_roundtrip_block0: "map pixel_roundtrip [0..<32] = map int [0..<32]"
  by (simp add: upt_rec pixel_roundtrip_def float_eval)

lemma pixel_roundtrip_block1: "map pixel_roundtrip [32..<64] = map int [32..<64]"
  by (simp add: upt_rec pixel_roundtrip_def float_eval)

lemma pixel_roundtrip_block2: "map pixel_roundtrip [64..<96] = map int [64..<96]"
  by (simp add: upt_rec pixel_roundtrip_def float_eval)

lemma pixel_roundtrip_block3: "map pixel_roundtrip [96..<128] = map int [96..<128]"
  by (simp add: upt_rec pixel_roundtrip_def float_eval)

lemma pixel_roundtrip_block4: "map pixel_roundtrip [128..<160] = map int [128..<160]"
  by (simp add: upt_rec pixel_roundtrip_def float_eval)

lemma pixel_roundtrip_block5: "map pixel_roundtrip [160..<192] = map int [160..<192]"
  by (simp add: upt_rec pixel_roundtrip_def float_eval)

lemma pixel_roundtrip_block6: "map pixel_roundtrip [192..<224] = map int [192..<224]"
  by (simp add: upt_rec pixel_roundtrip_def float_eval)

lemma pixel_roundtrip_block7: "map pixel_roundtrip [224..<256] = map int [224..<256]"
  by (simp add: upt_rec pixel_roundtrip_def float_eval)

lemma upt_split: "a \<le> b \<Longrightarrow> b \<le> c \<Longrightarrow> [a..<c] = [a..<b] @ [b..<c]"
  by (metis le_Suc_ex upt_add_eq_append)

lemma pixel_roundtrip_all: "map pixel_roundtrip [0..<256] = map int [0..<256]"
proof -
  have "[0..<256] = [0..<32] @ [32..<64] @ [64..<96] @ [96..<128] @ [128..<160] @
          [160..<192] @ [192..<224] @ [224..<256]"
    by (simp add: upt_split [of 0 32 256] upt_split [of 32 64 256] upt_split [of 64 96 256]
        upt_split [of 96 128 256] upt_split [of 128 160 256] upt_split [of 160 192 256]
        upt_split [of 192 224 256])
  then show ?thesis
    by (simp only: map_append pixel_roundtrip_block0 pixel_roundtrip_block1
        pixel_roundtrip_block2 pixel_roundtrip_block3 pixel_roundtrip_block4
        pixel_roundtrip_block5 pixel_roundtrip_block6 pixel_roundtrip_block7)
qed

lemma pixel_roundtrip_id:
  assumes "v < 256"
  shows "pixel_roundtrip v = int v"
proof -
  have "map pixel_roundtrip [0..<256] ! v = map int [0..<256] ! v"
    by (simp only: pixel_roundtrip_all)
  then show ?thesis using assms by simp
qed

lemma postprocess_preprocess_pixel:
  "pix (postprocess_image (preprocess_image img)) i j k = pix img i j k"
proof -
  have "unat (pix img i j k) < 256" using unsigned_less [of "pix img i j k"] by simp
  then have "pixel_roundtrip (unat (pix img i j k)) = int (unat (pix img i j k))"
    by (rule pixel_roundtrip_id)
  then show ?thesis
    by (simp add: postprocess_image_def preprocess_image_def pixel_roundtrip_def)
qed

section \<open>One tile\<close>

lemma assign_slice_shape:
  assumes "assign_slice out y1 y2 x1 x2 part = Inr out'"
  shows "rows out' = rows out \<and> cols out' = cols out \<and> chans out' = chans out"
  using assms by (auto simp: assign_slice_def Let_def split: if_splits)

lemma assign_slice_outside:
  assumes "assign_slice out y1 y2 x1 x2 part = Inr out'"
    and "\<not> (slice_idx (rows out) y1 \<le> i \<and> i < slice_idx (rows out) y1 + slice_len (rows out) y1 y2 \<and>
            slice_idx (cols out) x1 \<le> j \<and> j < slice_idx (cols out) x1 + slice_len (cols out) x1 x2)"
  shows "pix out' i j k = pix out i j k"
  using assms by (auto simp: assign_slice_def Let_def split: if_splits)

lemma assign_slice_isl:
  assumes "rows o1 = rows o2" and "cols o1 = cols o2" and "chans o1 = chans o2"
  shows "isl (assign_slice o1 y1 y2 x1 x2 part) = isl (assign_slice o2 y1 y2 x1 x2 part)"
  using assms by (simp add: assign_slice_def Let_def)

lemma run_tile_shape:
  assumes "run_tile M T P img scale out x y = Inr out'"
  shows "rows out' = rows out \<and> cols out' = cols out \<and> chans out' = chans out"
  using assms assign_slice_shape
  by (auto simp: run_tile_def Let_def split: sum.splits)

lemma run_tile_isl:
  assumes "rows o1 = rows o2" and "cols o1 = cols o2" and "chans o1 = chans o2"
  shows "isl (run_tile M T P img scale o1 x y) = isl (run_tile M T P img scale o2 x y)"
  using assign_slice_isl [OF assms]
  by (simp add: run_tile_def Let_def split: sum.splits)

text \<open>The destination slice of a grid origin needs no normalisation.\<close>

lemma dest_slice:
  assumes "0 \<le> x" and "x \<le> w" and "0 \<le> scale" and "0 \<le> T"
  shows "slice_idx (w * scale) (out_lo scale x) = out_lo scale x"
    and "slice_len (w * scale) (out_lo scale x) (out_hi T scale w x) =
           out_hi T scale w x - out_lo scale x"
proof -
  have a: "0 \<le> x * scale" using assms by simp
  have b: "x * scale \<le> w * scale" using assms by (simp add: mult_right_mono)
  have c: "0 \<le> T * scale" using assms by simp
  show "slice_idx (w * scale) (out_lo scale x) = out_lo scale x"
    using a b by (simp add: slice_idx_def out_lo_def)
  show "slice_len (w * scale) (out_lo scale x) (out_hi T scale w x) =
           out_hi T scale w x - out_lo scale x"
    using a b c by (simp add: slice_idx_def slice_len_def out_lo_def out_hi_def min_def max_def)
qed

lemma run_tile_outside:
  assumes r: "run_tile M T P img scale out x y = Inr out'"
    and sh: "rows out = rows img * scale" "cols out = cols img * scale"
    and g: "0 \<le> x" "x \<le> cols img" "0 \<le> y" "y \<le> rows img" "0 \<le> scale" "0 \<le> T"
    and n: "\<not> in_dest (cols img) (rows img) T scale (x, y) px py"
  shows "pix out' py px k = pix out py px k"
proof -
  from r obtain t where
    a: "assign_slice out (out_lo scale y) (out_hi T scale (rows img) y)
          (out_lo scale x) (out_hi T scale (cols img) x)
          (tile_part T P img scale (postprocess_image t) x y) = Inr out'"
    by (auto simp: run_tile_def Let_def split: sum.splits)
  note dy = dest_slice [OF g(3) g(4) g(5) g(6)]
  note dx = dest_slice [OF g(1) g(2) g(5) g(6)]
  show ?thesis
  proof (rule assign_slice_outside [OF a])
    show "\<not> (slice_idx (rows out) (out_lo scale y) \<le> py \<and>
            py < slice_idx (rows out) (out_lo scale y) +
                 slice_len (rows out) (out_lo scale y) (out_hi T scale (rows img) y) \<and>
            slice_idx (cols out) (out_lo scale x) \<le> px \<and>
            px < slice_idx (cols out) (out_lo scale x) +
                 slice_len (cols out) (out_lo scale x) (out_hi T scale (cols img) x))"
      using n by (auto simp add: sh dx dy in_dest_def in_dest1_def)
  qed
qed

section \<open>The loop over the tiles\<close>

lemma tile_loop_Cons:
  "tile_loop M T P img scale tt ((x, y) # ts) (out, n, rep) =
     (case run_tile M T P img scale out x y of
        Inl e \<Rightarrow>
          if n = 0 then Inl e
          else if tt = 0 then Inl ZeroDivisionError
          else tile_loop M T P img scale tt ts (out, n + 1, rep @ [progress (n + 1) tt])
      | Inr out' \<Rightarrow>
          if tt = 0 then Inl ZeroDivisionError
          else tile_loop M T P img scale tt ts (out', n + 1, rep @ [progress (n + 1) tt]))"
  by (simp add: report_def split: sum.splits)

lemma tile_loop_result:
  assumes "tile_loop M T P img scale tt ts (out, n, rep) = Inr (out', n', rep')"
  shows "n' = n + int (length ts) \<and>
         rep' = rep @ map (\<lambda>j. progress (n + int j) tt) [Suc 0..<Suc (length ts)] \<and>
         rows out' = rows out \<and> cols out' = cols out \<and> chans out' = chans out"
  using assms
proof (induction ts arbitrary: out n rep)
  case Nil
  then show ?case by simp
next
  case (Cons t ts)
  obtain x y where t: "t = (x, y)" by (cases t)
  have shift: "map (\<lambda>j. progress (n + int j) tt) [Suc 0..<Suc (Suc (length ts))] =
        progress (n + 1) tt # map (\<lambda>j. progress (n + 1 + int j) tt) [Suc 0..<Suc (length ts)]"
  proof -
    have "[Suc 0..<Suc (Suc (length ts))] = Suc 0 # map Suc [Suc 0..<Suc (length ts)]"
      by (simp add: upt_conv_Cons map_Suc_upt del: upt_Suc)
    then show ?thesis by (simp add: comp_def algebra_simps del: upt_Suc)
  qed
  show ?case
  proof (cases "run_tile M T P img scale out x y")
    case (Inl e)
    with Cons.prems t have
      l: "tile_loop M T P img scale tt ts (out, n + 1, rep @ [progress (n + 1) tt]) = Inr (out', n', rep')"
      by (simp add: tile_loop_Cons del: tile_loop.simps split: if_splits)
    from Cons.IH [OF l] show ?thesis by (simp add: shift del: upt_Suc)
  next
    case (Inr o1)
    with Cons.prems t have
      l: "tile_loop M T P img scale tt ts (o1, n + 1, rep @ [progress (n + 1) tt]) = Inr (out', n', rep')"
      by (simp add: tile_loop_Cons del: tile_loop.simps split: if_splits)
    from Cons.IH [OF l] run_tile_shape [OF Inr] show ?thesis by (simp add: shift del: upt_Suc)
  qed
qed

lemma tile_loop_continues:
  assumes "0 < n" and "tt \<noteq> 0"
  shows "\<exists>res. tile_loop M T P img scale tt ts (out, n, rep) = Inr res"
  using assms(1)
proof (induction ts arbitrary: out n rep)
  case Nil
  then show ?case by simp
next
  case (Cons t ts)
  obtain x y where t: "t = (x, y)" by (cases t)
  have n1: "0 < n + 1" using Cons.prems by simp
  show ?case
    using Cons.IH [OF n1] Cons.prems assms(2)
    by (simp add: t tile_loop_Cons del: tile_loop.simps split: sum.splits)
qed

lemma tile_loop_invariant:
  assumes ok: "\<And>d b b' x y. G (x, y) \<Longrightarrow> Q d b \<Longrightarrow>
               run_tile M T P img scale b x y = Inr b' \<Longrightarrow> Q ((x, y) # d) b'"
    and fail: "\<And>d b e x y. G (x, y) \<Longrightarrow> Q d b \<Longrightarrow>
               run_tile M T P img scale b x y = Inl e \<Longrightarrow> Q ((x, y) # d) b"
  shows "tile_loop M T P img scale tt ts (out, n, rep) = Inr (out', n', rep') \<Longrightarrow>
         Q d out \<Longrightarrow> (\<forall>t \<in> set ts. G t) \<Longrightarrow> Q (rev ts @ d) out'"
proof (induction ts arbitrary: out n rep d)
  case Nil
  then show ?case by simp
next
  case (Cons t ts)
  obtain x y where t: "t = (x, y)" by (cases t)
  have g: "G (x, y)" using Cons.prems(3) by (simp add: t)
  have gs: "\<forall>t \<in> set ts. G t" using Cons.prems(3) by simp
  show ?case
  proof (cases "run_tile M T P img scale out x y")
    case (Inl e)
    have l: "tile_loop M T P img scale tt ts (out, n + 1, rep @ [progress (n + 1) tt]) = Inr (out', n', rep')"
      using Cons.prems(1) Inl
      by (simp add: t tile_loop_Cons del: tile_loop.simps split: if_splits)
    have q: "Q ((x, y) # d) out" by (rule fail [OF g Cons.prems(2) Inl])
    have "Q (rev ts @ (x, y) # d) out'" by (rule Cons.IH [OF l q gs])
    then show ?thesis by (simp add: t)
  next
    case (Inr o1)
    have l: "tile_loop M T P img scale tt ts (o1, n + 1, rep @ [progress (n + 1) tt]) = Inr (out', n', rep')"
      using Cons.prems(1) Inr
      by (simp add: t tile_loop_Cons del: tile_loop.simps split: if_splits)
    have q: "Q ((x, y) # d) o1" by (rule ok [OF g Cons.prems(2) Inr])
    have "Q (rev ts @ (x, y) # d) out'" by (rule Cons.IH [OF l q gs])
    then show ?thesis by (simp add: t)
  qed
qed

section \<open>The whole call\<close>

lemma range_length: "length (py_range w T) = (if 0 < T then nat ((w + T - 1) div T) else 0)"
  by (simp add: py_range_def)

lemma num_tiles_pos:
  fixes w T :: int
  assumes "1 \<le> w" and "1 \<le> T"
  shows "1 \<le> (w + T - 1) div T"
proof -
  have le: "T \<le> w + T - 1" using assms by simp
  have Tpos: "0 < T" using assms by simp
  have "T div T \<le> (w + T - 1) div T" by (rule zdiv_mono1 [OF le Tpos])
  then show ?thesis using Tpos by simp
qed

lemma grid_length:
  assumes "1 \<le> w" and "1 \<le> h" and "1 \<le> T"
  shows "int (length (tile_grid w h T)) = ((w + T - 1) div T) * ((h + T - 1) div T)"
    and "1 \<le> length (tile_grid w h T)"
proof -
  have l: "length (tile_grid w h T) = length (py_range h T) * length (py_range w T)"
    by (simp add: tile_grid_def length_concat comp_def sum_list_triv)
  have a: "1 \<le> (w + T - 1) div T" "1 \<le> (h + T - 1) div T"
    by (rule num_tiles_pos [OF assms(1) assms(3)], rule num_tiles_pos [OF assms(2) assms(3)])
  show "int (length (tile_grid w h T)) = ((w + T - 1) div T) * ((h + T - 1) div T)"
    using assms a by (simp add: l range_length)
  have "1 \<le> nat ((h + T - 1) div T) * nat ((w + T - 1) div T)"
    using a by (simp add: Suc_le_eq nat_0_less_mult_iff)
  then show "1 \<le> length (tile_grid w h T)" using assms by (simp add: l range_length)
qed

lemma range_head:
  assumes "1 \<le> w" and "1 \<le> T"
  shows "\<exists>rest. py_range w T = 0 # rest"
proof -
  have "0 < nat ((w + T - 1) div T)" using num_tiles_pos [OF assms] by simp
  then have "[0..<nat ((w + T - 1) div T)] = 0 # [Suc 0..<nat ((w + T - 1) div T)]"
    by (simp add: upt_conv_Cons)
  then show ?thesis using assms by (simp add: py_range_def)
qed

lemma grid_head:
  assumes "1 \<le> w" and "1 \<le> h" and "1 \<le> T"
  shows "\<exists>rest. tile_grid w h T = (0, 0) # rest"
proof -
  obtain rx where rx: "py_range w T = 0 # rx" using range_head [OF assms(1) assms(3)] by blast
  obtain ry where ry: "py_range h T = 0 # ry" using range_head [OF assms(2) assms(3)] by blast
  show ?thesis by (simp add: tile_grid_def rx ry)
qed

lemma process_unfold:
  assumes "1 \<le> rows img" and "1 \<le> cols img" and "1 \<le> T" and "1 \<le> scale"
  shows "process_image_with_tiling M T P img scale =
     (case tile_loop M T P img scale (int (length (tile_grid (cols img) (rows img) T)))
             (tile_grid (cols img) (rows img) T)
             (zeros (rows img * scale) (cols img * scale) (chans img), 0, []) of
        Inl e \<Rightarrow> Inl (ImageProcessingError e)
      | Inr (out, n, rep) \<Rightarrow> Inr (out, rep))"
proof -
  have a: "\<not> (rows img * scale < 0 \<or> cols img * scale < 0)"
    using assms by (simp add: not_less)
  have b: "T \<noteq> 0" using assms by simp
  show ?thesis
    by (simp add: process_image_with_tiling_def Let_def a b
        grid_length(1) [OF assms(2) assms(1) assms(3)] del: tile_loop.simps)
qed

lemma first_tile_decides:
  assumes "1 \<le> rows img" and "1 \<le> cols img" and "1 \<le> T" and "1 \<le> scale"
  shows "(\<forall>e. run_tile M T P img scale
                (zeros (rows img * scale) (cols img * scale) (chans img)) 0 0 = Inl e \<longrightarrow>
              process_image_with_tiling M T P img scale = Inl (ImageProcessingError e)) \<and>
         (\<not> tile_raises M T P img scale (0, 0) \<longrightarrow>
              (\<exists>out n rep.
                 tile_loop M T P img scale (int (length (tile_grid (cols img) (rows img) T)))
                   (tile_grid (cols img) (rows img) T)
                   (zeros (rows img * scale) (cols img * scale) (chans img), 0, []) = Inr (out, n, rep) \<and>
                 process_image_with_tiling M T P img scale = Inr (out, rep)))"
proof -
  let ?z = "zeros (rows img * scale) (cols img * scale) (chans img)"
  let ?g = "tile_grid (cols img) (rows img) T"
  let ?tt = "int (length ?g)"
  obtain rest where g: "?g = (0, 0) # rest"
    using grid_head [OF assms(2) assms(1) assms(3)] by blast
  have tt: "?tt \<noteq> 0" by (simp add: g)
  note pu = process_unfold [OF assms, of M P]
  show ?thesis
  proof (cases "run_tile M T P img scale ?z 0 0")
    case (Inl e)
    have "tile_loop M T P img scale ?tt ?g (?z, 0, []) = Inl e"
      by (simp only: g tile_loop_Cons Inl) simp
    then have "process_image_with_tiling M T P img scale = Inl (ImageProcessingError e)"
      by (simp add: pu del: tile_loop.simps)
    then show ?thesis using Inl by (simp add: tile_raises_def)
  next
    case (Inr o1)
    have one: "(0::int) < 0 + 1" by simp
    obtain res where
      r: "tile_loop M T P img scale ?tt rest (o1, 0 + 1, [] @ [progress (0 + 1) ?tt]) = Inr res"
      using tile_loop_continues [OF one tt] by blast
    obtain out n rep where res: "res = (out, n, rep)" by (cases res)
    have l: "tile_loop M T P img scale ?tt ?g (?z, 0, []) = Inr (out, n, rep)"
      using r res tt by (simp only: g tile_loop_Cons Inr) simp
    then have "process_image_with_tiling M T P img scale = Inr (out, rep)"
      by (simp add: pu del: tile_loop.simps)
    with l show ?thesis using Inr by auto
  qed
qed

lemma progress_list:
  assumes "1 \<le> N"
  shows "sorted (map (\<lambda>j. progress (int j) (int N)) [Suc 0..<Suc N])"
    and "last (map (\<lambda>j. progress (int j) (int N)) [Suc 0..<Suc N]) = 100"
    and "length (map (\<lambda>j. progress (int j) (int N)) [Suc 0..<Suc N]) = N"
proof -
  have pos: "0 < int N" using assms by simp
  have "sorted_wrt (\<lambda>a b. progress (int a) (int N) \<le> progress (int b) (int N)) [Suc 0..<Suc N]"
  proof (rule sorted_wrt_mono_rel [of _ "(\<le>)"])
    show "sorted_wrt (\<le>) [Suc 0..<Suc N]" by (rule sorted_upt)
  next
    fix a b
    assume "a \<in> set [Suc 0..<Suc N]" and "b \<in> set [Suc 0..<Suc N]" and "a \<le> b"
    then show "progress (int a) (int N) \<le> progress (int b) (int N)"
      using progress_mono [of "int a" "int b" "int N"] pos by simp
  qed
  then show "sorted (map (\<lambda>j. progress (int j) (int N)) [Suc 0..<Suc N])"
    by (simp add: sorted_map del: upt_Suc)
  have "[Suc 0..<Suc N] \<noteq> []" using assms by simp
  then have "last (map (\<lambda>j. progress (int j) (int N)) [Suc 0..<Suc N]) =
        progress (int (last [Suc 0..<Suc N])) (int N)"
    by (simp add: last_map del: upt_Suc)
  also have "last [Suc 0..<Suc N] = N" using assms by simp
  finally show "last (map (\<lambda>j. progress (int j) (int N)) [Suc 0..<Suc N]) = 100"
    using progress_complete [OF pos] by simp
  show "length (map (\<lambda>j. progress (int j) (int N)) [Suc 0..<Suc N]) = N" by simp
qed

lemma successful_run:
  assumes "1 \<le> rows img" and "1 \<le> cols img" and "1 \<le> T" and "1 \<le> scale"
    and "\<not> tile_raises M T P img scale (0, 0)"
  shows "\<exists>out. process_image_with_tiling M T P img scale =
           Inr (out, map (\<lambda>j. progress (int j) (int (length (tile_grid (cols img) (rows img) T))))
                      [Suc 0..<Suc (length (tile_grid (cols img) (rows img) T))]) \<and>
           rows out = rows img * scale \<and> cols out = cols img * scale \<and> chans out = chans img"
proof -
  from first_tile_decides [OF assms(1-4), of M P] assms(5)
  obtain out n rep where
    l: "tile_loop M T P img scale (int (length (tile_grid (cols img) (rows img) T)))
          (tile_grid (cols img) (rows img) T)
          (zeros (rows img * scale) (cols img * scale) (chans img), 0, []) = Inr (out, n, rep)"
    and p: "process_image_with_tiling M T P img scale = Inr (out, rep)"
    by blast
  from tile_loop_result [OF l] have
    "rep = map (\<lambda>j. progress (int j) (int (length (tile_grid (cols img) (rows img) T))))
                      [Suc 0..<Suc (length (tile_grid (cols img) (rows img) T))]"
    and "rows out = rows img * scale" and "cols out = cols img * scale" and "chans out = chans img"
    by (simp_all add: zeros_def del: upt_Suc)
  with p show ?thesis by blast
qed

lemma returned_run:
  assumes "1 \<le> rows img" and "1 \<le> cols img" and "1 \<le> T" and "1 \<le> scale"
    and "process_image_with_tiling M T P img scale = Inr (out, rep)"
  shows "rep = map (\<lambda>j. progress (int j) (int (length (tile_grid (cols img) (rows img) T))))
                      [Suc 0..<Suc (length (tile_grid (cols img) (rows img) T))]"
proof -
  from assms(5) obtain n where
    l: "tile_loop M T P img scale (int (length (tile_grid (cols img) (rows img) T)))
          (tile_grid (cols img) (rows img) T)
          (zeros (rows img * scale) (cols img * scale) (chans img), 0, []) = Inr (out, n, rep)"
    by (auto simp: process_unfold [OF assms(1-4)] simp del: tile_loop.simps split: sum.splits)
  from tile_loop_result [OF l] show ?thesis by (simp del: upt_Suc)
qed

text \<open>
  C10.  A run that does not raise on the first tile returns; the callback then received
  one value per grid cell, the values \<open>int(j / N * 100)\<close> for \<open>j = 1, \<dots>, N\<close>, which are
  non-decreasing and end at 100, and the output has the shape of the scaled image.  None
  of this depends on the model: two runs on the same image, whatever tiles after the first
  raise in either, report the same sequence and return arrays of the same shape.
\<close>

theorem progress_independent_of_tile_failures:
  assumes "1 \<le> rows img" and "1 \<le> cols img" and "1 \<le> T" and "1 \<le> scale"
    and "\<not> tile_raises M1 T P img scale (0, 0)"
    and "\<not> tile_raises M2 T P img scale (0, 0)"
  shows "\<exists>out1 out2 rep.
           process_image_with_tiling M1 T P img scale = Inr (out1, rep) \<and>
           process_image_with_tiling M2 T P img scale = Inr (out2, rep) \<and>
           rep = map (\<lambda>j. progress (int j) (int (length (tile_grid (cols img) (rows img) T))))
                   [Suc 0..<Suc (length (tile_grid (cols img) (rows img) T))] \<and>
           length rep = length (tile_grid (cols img) (rows img) T) \<and>
           sorted rep \<and> last rep = 100 \<and>
           rows out1 = rows img * scale \<and> cols out1 = cols img * scale \<and> chans out1 = chans img \<and>
           rows out2 = rows img * scale \<and> cols out2 = cols img * scale \<and> chans out2 = chans img"
proof -
  let ?N = "length (tile_grid (cols img) (rows img) T)"
  let ?rep = "map (\<lambda>j. progress (int j) (int ?N)) [Suc 0..<Suc ?N]"
  have N: "1 \<le> ?N" by (rule grid_length(2) [OF assms(2) assms(1) assms(3)])
  from successful_run [OF assms(1-4) assms(5)] obtain out1 where
    1: "process_image_with_tiling M1 T P img scale = Inr (out1, ?rep)"
       "rows out1 = rows img * scale" "cols out1 = cols img * scale" "chans out1 = chans img"
    by blast
  from successful_run [OF assms(1-4) assms(6)] obtain out2 where
    2: "process_image_with_tiling M2 T P img scale = Inr (out2, ?rep)"
       "rows out2 = rows img * scale" "cols out2 = cols img * scale" "chans out2 = chans img"
    by blast
  note pl = progress_list [OF N]
  show ?thesis
    using 1 2 pl by (intro exI [of _ out1] exI [of _ out2] exI [of _ ?rep]) (simp del: upt_Suc)
qed

lemma grid_600_400:
  "tile_grid 600 400 256 = [(0, 0), (256, 0), (512, 0), (0, 256), (256, 256), (512, 256)]"
  by (simp add: tile_grid_def py_range_def upt_rec)

lemma progress_600_400:
  assumes "rows img = 400" and "cols img = 600"
    and "process_image_with_tiling M 256 P img 2 = Inr (out, rep)"
  shows "rep = [16, 33, 50, 66, 83, 100]"
proof -
  have d: "1 \<le> rows img" "1 \<le> cols img" "(1::int) \<le> 256" "(1::int) \<le> 2"
    using assms by simp_all
  have len: "length (tile_grid 600 400 256) = 6" by (simp add: grid_600_400)
  have "rep = map (\<lambda>j. progress (int j) (int 6)) [Suc 0..<Suc 6]"
    using returned_run [OF d assms(3)] by (simp only: assms(1) assms(2) len)
  also have "[Suc 0..<Suc 6] = [1, 2, 3, 4, 5, 6]" by (simp add: upt_rec)
  finally show ?thesis by (simp add: progress_of_six)
qed

lemmas tile_eval = tile_raises_def run_tile_def zeros_def slice2_def slice_len_def slice_idx_def
  tile_lo_def tile_hi_def preprocess_image_def postprocess_image_def tile_part_def
  out_tile_lo_def out_tile_hi_def non_pad_lo_def non_pad_hi_def out_lo_def out_hi_def
  assign_slice_def broadcastable_def Let_def

lemma nearest_first_tile:
  "\<not> tile_raises
     (\<lambda>t. Inr \<lparr>tchans = tchans t, trows = trows t * 2, tcols = tcols t * 2,
        tval = (\<lambda>k i j. tval t k (i div 2) (j div 2))\<rparr>)
     256 16 (zeros 400 600 3) 2 (0, 0)"
  by (simp add: tile_eval)

text \<open>
  C4, the claim as stated fails: with a model that doubles each tile (nearest neighbour), the
  run on a 600 by 400 image with tile size 256, padding 16 and scale 2 reports 16 after the
  first tile and 66 after the fourth, not 17 and 67: \<open>int\<close> truncates.
\<close>

theorem scenario_600x400_truncates:
  "map_sum id snd (process_image_with_tiling
     (\<lambda>t. Inr \<lparr>tchans = tchans t, trows = trows t * 2, tcols = tcols t * 2,
        tval = (\<lambda>k i j. tval t k (i div 2) (j div 2))\<rparr>)
     256 16 (zeros 400 600 3) 2) = Inr [16, 33, 50, 66, 83, 100] \<and>
   map_sum id snd (process_image_with_tiling
     (\<lambda>t. Inr \<lparr>tchans = tchans t, trows = trows t * 2, tcols = tcols t * 2,
        tval = (\<lambda>k i j. tval t k (i div 2) (j div 2))\<rparr>)
     256 16 (zeros 400 600 3) 2) \<noteq> Inr [17, 33, 50, 67, 83, 100]"
proof -
  have d: "1 \<le> rows (zeros 400 600 3)" "1 \<le> cols (zeros 400 600 3)" "(1::int) \<le> 256" "(1::int) \<le> 2"
    by (simp_all add: zeros_def)
  from successful_run [OF d nearest_first_tile] obtain out rep where
    p: "process_image_with_tiling
     (\<lambda>t. Inr \<lparr>tchans = tchans t, trows = trows t * 2, tcols = tcols t * 2,
        tval = (\<lambda>k i j. tval t k (i div 2) (j div 2))\<rparr>)
     256 16 (zeros 400 600 3) 2 = Inr (out, rep)"
    by blast
  have r: "rows (zeros 400 600 3) = 400" "cols (zeros 400 600 3) = 600" by (simp_all add: zeros_def)
  from progress_600_400 [OF r p] p show ?thesis by simp
qed

text \<open>
  C4, amended.  For a 600 by 400 image with tile size 256 and scale 2 (padding 16 or any
  other), the grid has the six origins of a 3 by 2 grid, visited row by row, and a run that
  returns has reported 16, 33, 50, 66, 83, 100: \<open>int(tiles_processed / total_tiles * 100)\<close>,
  truncated.
\<close>

theorem scenario_600x400_progress:
  assumes "rows img = 400" and "cols img = 600"
    and "process_image_with_tiling M 256 P img 2 = Inr (out, rep)"
  shows "tile_grid (cols img) (rows img) 256 =
           [(0, 0), (256, 0), (512, 0), (0, 256), (256, 256), (512, 256)] \<and>
         rep = [16, 33, 50, 66, 83, 100]"
  using progress_600_400 [OF assms] by (simp add: assms(1) assms(2) grid_600_400)

theorem scenario_600x400_progress_witness:
  "snd (projr (process_image_with_tiling
     (\<lambda>t. Inr \<lparr>tchans = tchans t, trows = trows t * 2, tcols = tcols t * 2,
        tval = (\<lambda>k i j. tval t k (i div 2) (j div 2))\<rparr>)
     256 16 (zeros 400 600 3) 2)) = [16, 33, 50, 66, 83, 100]"
proof -
  have d: "1 \<le> rows (zeros 400 600 3)" "1 \<le> cols (zeros 400 600 3)" "(1::int) \<le> 256" "(1::int) \<le> 2"
    by (simp_all add: zeros_def)
  from successful_run [OF d nearest_first_tile] obtain out rep where
    p: "process_image_with_tiling
     (\<lambda>t. Inr \<lparr>tchans = tchans t, trows = trows t * 2, tcols = tcols t * 2,
        tval = (\<lambda>k i j. tval t k (i div 2) (j div 2))\<rparr>)
     256 16 (zeros 400 600 3) 2 = Inr (out, rep)"
    by blast
  have r: "rows (zeros 400 600 3) = 400" "cols (zeros 400 600 3) = 600" by (simp_all add: zeros_def)
  from scenario_600x400_progress [OF r p] p show ?thesis by simp
qed

lemma grid_origin_bounds:
  assumes "1 \<le> T" and "x \<in> set (py_range w T)"
  shows "0 \<le> x \<and> x < w"
proof -
  from assms obtain k where k: "k < nat ((w + T - 1) div T)" and x: "x = int k * T"
    by (auto simp: py_range_def)
  from range_index_bound [OF assms(1) k] x assms(1) show ?thesis by simp
qed

lemma filter_single:
  assumes "length (filter Q xs) = 1" and "a \<in> set xs" and "Q a" and "b \<in> set xs" and "Q b"
  shows "a = b"
proof -
  from assms(1) obtain c where c: "filter Q xs = [c]"
    by (cases "filter Q xs") auto
  have "a \<in> set (filter Q xs)" "b \<in> set (filter Q xs)" using assms by simp_all
  then show ?thesis by (simp add: c)
qed

lemma failed_tiles_stay_zero:
  assumes d: "1 \<le> rows img" "1 \<le> cols img" "1 \<le> T" "1 \<le> scale"
    and l: "tile_loop M T P img scale tt (tile_grid (cols img) (rows img) T)
              (zeros (rows img * scale) (cols img * scale) (chans img), 0, []) = Inr (out, n, rep)"
    and t: "t \<in> set (tile_grid (cols img) (rows img) T)"
    and r: "tile_raises M T P img scale t"
    and p: "in_dest (cols img) (rows img) T scale t px py"
  shows "pix out py px k = 0"
proof -
  let ?w = "cols img" and ?h = "rows img"
  let ?g = "tile_grid ?w ?h T"
  define Q where "Q = (\<lambda>(dn :: (int \<times> int) list) (b :: ndarray).
      rows b = ?h * scale \<and> cols b = ?w * scale \<and> chans b = chans img \<and>
      (\<forall>px py k. (\<forall>u \<in> set ?g. in_dest ?w ?h T scale u px py \<longrightarrow> tile_raises M T P img scale u)
          \<longrightarrow> pix b py px k = 0))"
  define G where "G = (\<lambda>u. u \<in> set ?g)"
  have q0: "Q [] (zeros (?h * scale) (?w * scale) (chans img))"
    by (simp add: Q_def zeros_def)
  have ok: "Q ((x, y) # dn) b'"
    if "G (x, y)" and "Q dn b" and "run_tile M T P img scale b x y = Inr b'" for dn b b' x y
  proof -
    from that(1) have mx: "x \<in> set (py_range ?w T)" and my: "y \<in> set (py_range ?h T)"
      by (simp_all add: G_def grid_member)
    from grid_origin_bounds [OF d(3) mx] grid_origin_bounds [OF d(3) my]
    have gx: "0 \<le> x" "x \<le> ?w" and gy: "0 \<le> y" "y \<le> ?h" by simp_all
    have sh: "rows b = ?h * scale" "cols b = ?w * scale" "chans b = chans img"
      using that(2) by (simp_all add: Q_def)
    have sh': "rows b' = ?h * scale" "cols b' = ?w * scale" "chans b' = chans img"
      using run_tile_shape [OF that(3)] sh by simp_all
    have nr: "\<not> tile_raises M T P img scale (x, y)"
    proof -
      have "isl (run_tile M T P img scale (zeros (?h * scale) (?w * scale) (chans img)) x y) =
            isl (run_tile M T P img scale b x y)"
        by (rule run_tile_isl) (simp_all add: zeros_def sh)
      then show ?thesis using that(3) by (simp add: tile_raises_def)
    qed
    have "pix b' py px k = 0"
      if a: "\<forall>u \<in> set ?g. in_dest ?w ?h T scale u px py \<longrightarrow> tile_raises M T P img scale u"
      for px py k
    proof -
      have "(x, y) \<in> set ?g" using \<open>G (x, y)\<close> by (simp add: G_def)
      with a nr have nd: "\<not> in_dest ?w ?h T scale (x, y) px py" by blast
      have s0: "0 \<le> scale" "0 \<le> T" using d by simp_all
      have "pix b' py px k = pix b py px k"
        by (rule run_tile_outside [OF \<open>run_tile M T P img scale b x y = Inr b'\<close> sh(1) sh(2)
              gx(1) gx(2) gy(1) gy(2) s0(1) s0(2) nd])
      also have "\<dots> = 0" using \<open>Q dn b\<close> a by (simp add: Q_def)
      finally show ?thesis .
    qed
    then show ?thesis using sh' by (simp add: Q_def)
  qed
  have fail: "Q ((x, y) # dn) b"
    if "G (x, y)" and "Q dn b" and "run_tile M T P img scale b x y = Inl e" for dn b e x y
    using that(2) by (simp add: Q_def)
  have "\<forall>u \<in> set ?g. G u" by (simp add: G_def)
  from tile_loop_invariant [of G Q M T P img scale, OF ok fail l q0 this]
  have qf: "Q (rev ?g @ []) out" .
  obtain x y where xy: "t = (x, y)" by (cases t)
  from t xy have mx: "x \<in> set (py_range ?w T)" and my: "y \<in> set (py_range ?h T)"
    by (simp_all add: grid_member)
  from p xy have dx: "in_dest1 ?w T scale x px" and dy: "in_dest1 ?h T scale y py"
    by (simp_all add: in_dest_def)
  from in_dest1_bounds [OF d(4) mx dx] in_dest1_bounds [OF d(4) my dy]
  have b: "0 \<le> px" "px < ?w * scale" "0 \<le> py" "py < ?h * scale" by simp_all
  have one: "length (filter (\<lambda>u. in_dest ?w ?h T scale u px py) ?g) = 1"
    by (rule dest_count_2d [OF d(3) d(4) b])
  have "\<forall>u \<in> set ?g. in_dest ?w ?h T scale u px py \<longrightarrow> tile_raises M T P img scale u"
  proof (intro ballI impI)
    fix u assume "u \<in> set ?g" and "in_dest ?w ?h T scale u px py"
    from filter_single [OF one this t p] r show "tile_raises M T P img scale u" by simp
  qed
  with qf show ?thesis by (simp add: Q_def)
qed

text \<open>
  C3.  An exception of the first tile (the grid origin \<open>(0, 0)\<close>, run on the zero canvas)
  leaves the call as an \<open>ImageProcessingError\<close> carrying it.  If the first tile does not
  raise, the call returns, and for every tile that raises every pixel of its destination
  region is zero in the returned array.  Whether a tile raises is the same on every canvas
  of the output shape, so \<open>tile_raises\<close> is what happens in the loop.
\<close>

theorem later_tile_failures_leave_zeros:
  assumes "1 \<le> rows img" and "1 \<le> cols img" and "1 \<le> T" and "1 \<le> scale"
  shows "(\<forall>e. run_tile M T P img scale
                (zeros (rows img * scale) (cols img * scale) (chans img)) 0 0 = Inl e \<longrightarrow>
              process_image_with_tiling M T P img scale = Inl (ImageProcessingError e)) \<and>
         (\<not> tile_raises M T P img scale (0, 0) \<longrightarrow>
              (\<exists>out rep. process_image_with_tiling M T P img scale = Inr (out, rep) \<and>
                 (\<forall>t \<in> set (tile_grid (cols img) (rows img) T).
                    tile_raises M T P img scale t \<longrightarrow>
                    (\<forall>px py k. in_dest (cols img) (rows img) T scale t px py \<longrightarrow>
                       pix out py px k = 0)))) \<and>
         (\<forall>b t. rows b = rows img * scale \<and> cols b = cols img * scale \<and> chans b = chans img \<longrightarrow>
              isl (run_tile M T P img scale b (fst t) (snd t)) = tile_raises M T P img scale t)"
proof (intro conjI impI allI)
  fix b :: ndarray and t :: "int \<times> int"
  assume sh: "rows b = rows img * scale \<and> cols b = cols img * scale \<and> chans b = chans img"
  have "isl (run_tile M T P img scale b (fst t) (snd t)) =
        isl (run_tile M T P img scale
               (zeros (rows img * scale) (cols img * scale) (chans img)) (fst t) (snd t))"
    by (rule run_tile_isl) (simp_all add: zeros_def sh)
  then show "isl (run_tile M T P img scale b (fst t) (snd t)) = tile_raises M T P img scale t"
    by (simp add: tile_raises_def)
next
  fix e
  assume "run_tile M T P img scale
            (zeros (rows img * scale) (cols img * scale) (chans img)) 0 0 = Inl e"
  then show "process_image_with_tiling M T P img scale = Inl (ImageProcessingError e)"
    using first_tile_decides [OF assms, of M P] by blast
next
  assume "\<not> tile_raises M T P img scale (0, 0)"
  with first_tile_decides [OF assms, of M P] obtain out n rep where
    l: "tile_loop M T P img scale (int (length (tile_grid (cols img) (rows img) T)))
          (tile_grid (cols img) (rows img) T)
          (zeros (rows img * scale) (cols img * scale) (chans img), 0, []) = Inr (out, n, rep)"
    and p: "process_image_with_tiling M T P img scale = Inr (out, rep)"
    by blast
  have "\<forall>t \<in> set (tile_grid (cols img) (rows img) T).
          tile_raises M T P img scale t \<longrightarrow>
          (\<forall>px py k. in_dest (cols img) (rows img) T scale t px py \<longrightarrow> pix out py px k = 0)"
    using failed_tiles_stay_zero [OF assms l] by blast
  with p show "\<exists>out rep. process_image_with_tiling M T P img scale = Inr (out, rep) \<and>
                 (\<forall>t \<in> set (tile_grid (cols img) (rows img) T).
                    tile_raises M T P img scale t \<longrightarrow>
                    (\<forall>px py k. in_dest (cols img) (rows img) T scale t px py \<longrightarrow>
                       pix out py px k = 0))"
    by blast
qed

lemma picky_model_first_tile:
  "\<not> tile_raises (\<lambda>t. if tval t 0 0 0 = 0 then Inr t else Inl RuntimeError)
     1 0 \<lparr>rows = 1, cols = 2, chans = 1, pix = (\<lambda>i j k. if j = 0 then 0 else 255)\<rparr> 1 (0, 0)"
  by (simp add: tile_eval fl_def)

lemma picky_model_second_tile:
  "tile_raises (\<lambda>t. if tval t 0 0 0 = 0 then Inr t else Inl RuntimeError)
     1 0 \<lparr>rows = 1, cols = 2, chans = 1, pix = (\<lambda>i j k. if j = 0 then 0 else 255)\<rparr> 1 (1, 0)"
proof -
  have "fl 24 1 \<noteq> 0" by (simp add: float_eval)
  then show ?thesis by (simp add: tile_eval)
qed

lemma identity_model_first_tile:
  "\<not> tile_raises (\<lambda>t. Inr t) 1 0 \<lparr>rows = 1, cols = 2, chans = 1, pix = (\<lambda>i j k. if j = 0 then 0 else 255)\<rparr> 1 (0, 0)"
  by (simp add: tile_eval)

theorem later_tile_failures_leave_zeros_witness:
  "\<exists>out rep. process_image_with_tiling (\<lambda>t. if tval t 0 0 0 = 0 then Inr t else Inl RuntimeError)
       1 0 \<lparr>rows = 1, cols = 2, chans = 1, pix = (\<lambda>i j k. if j = 0 then 0 else 255)\<rparr> 1 = Inr (out, rep) \<and>
     pix out 0 1 0 = 0"
proof -
  have d: "1 \<le> rows \<lparr>rows = 1, cols = 2, chans = 1, pix = (\<lambda>i j k. if j = 0 then 0 else 255)\<rparr>"
    "1 \<le> cols \<lparr>rows = 1, cols = 2, chans = 1, pix = (\<lambda>i j k. if j = 0 then 0 else 255)\<rparr>"
    "(1::int) \<le> 1" by simp_all
  have g: "(1, 0) \<in> set (tile_grid (cols \<lparr>rows = 1, cols = 2, chans = 1, pix = (\<lambda>i j k. if j = 0 then 0 else 255)\<rparr>)
             (rows \<lparr>rows = 1, cols = 2, chans = 1, pix = (\<lambda>i j k. if j = 0 then 0 else 255)\<rparr>) 1)"
    by (simp add: tile_grid_def py_range_def upt_rec)
  have i: "in_dest (cols \<lparr>rows = 1, cols = 2, chans = 1, pix = (\<lambda>i j k. if j = 0 then 0 else 255)\<rparr>)
             (rows \<lparr>rows = 1, cols = 2, chans = 1, pix = (\<lambda>i j k. if j = 0 then 0 else 255)\<rparr>) 1 1 (1, 0) 1 0"
    by (simp add: in_dest_def in_dest1_def out_lo_def out_hi_def)
  from later_tile_failures_leave_zeros [OF d(1) d(2) d(3) d(3), THEN conjunct2, THEN conjunct1,
      rule_format, OF picky_model_first_tile]
  obtain out rep where
    p: "process_image_with_tiling (\<lambda>t. if tval t 0 0 0 = 0 then Inr t else Inl RuntimeError)
          1 0 \<lparr>rows = 1, cols = 2, chans = 1, pix = (\<lambda>i j k. if j = 0 then 0 else 255)\<rparr> 1 = Inr (out, rep)"
    and z: "\<forall>t \<in> set (tile_grid (cols \<lparr>rows = 1, cols = 2, chans = 1, pix = (\<lambda>i j k. if j = 0 then 0 else 255)\<rparr>) (rows \<lparr>rows = 1, cols = 2, chans = 1, pix = (\<lambda>i j k. if j = 0 then 0 else 255)\<rparr>) 1).
          tile_raises (\<lambda>t. if tval t 0 0 0 = 0 then Inr t else Inl RuntimeError) 1 0 \<lparr>rows = 1, cols = 2, chans = 1, pix = (\<lambda>i j k. if j = 0 then 0 else 255)\<rparr> 1 t \<longrightarrow>
          (\<forall>px py k. in_dest (cols \<lparr>rows = 1, cols = 2, chans = 1, pix = (\<lambda>i j k. if j = 0 then 0 else 255)\<rparr>) (rows \<lparr>rows = 1, cols = 2, chans = 1, pix = (\<lambda>i j k. if j = 0 then 0 else 255)\<rparr>) 1 1 t px py \<longrightarrow> pix out py px k = 0)"
    by blast
  from z g picky_model_second_tile i have "pix out 0 1 0 = 0" by blast
  with p show ?thesis by blast
qed

theorem progress_independent_of_tile_failures_witness:
  "\<exists>out1 out2 rep.
     process_image_with_tiling (\<lambda>t. Inr t) 1 0 \<lparr>rows = 1, cols = 2, chans = 1, pix = (\<lambda>i j k. if j = 0 then 0 else 255)\<rparr> 1 = Inr (out1, rep) \<and>
     process_image_with_tiling (\<lambda>t. if tval t 0 0 0 = 0 then Inr t else Inl RuntimeError)
       1 0 \<lparr>rows = 1, cols = 2, chans = 1, pix = (\<lambda>i j k. if j = 0 then 0 else 255)\<rparr> 1 = Inr (out2, rep) \<and>
     length rep = length (tile_grid 2 1 1) \<and> sorted rep \<and> last rep = 100"
proof -
  have d: "1 \<le> rows \<lparr>rows = 1, cols = 2, chans = 1, pix = (\<lambda>i j k. if j = 0 then 0 else 255)\<rparr>"
    "1 \<le> cols \<lparr>rows = 1, cols = 2, chans = 1, pix = (\<lambda>i j k. if j = 0 then 0 else 255)\<rparr>"
    "(1::int) \<le> 1" by simp_all
  from progress_independent_of_tile_failures [OF d(1) d(2) d(3) d(3)
      identity_model_first_tile picky_model_first_tile]
  obtain out1 out2 rep where
    r: "process_image_with_tiling (\<lambda>t. Inr t) 1 0 \<lparr>rows = 1, cols = 2, chans = 1, pix = (\<lambda>i j k. if j = 0 then 0 else 255)\<rparr> 1 = Inr (out1, rep)"
       "process_image_with_tiling (\<lambda>t. if tval t 0 0 0 = 0 then Inr t else Inl RuntimeError) 1 0 \<lparr>rows = 1, cols = 2, chans = 1, pix = (\<lambda>i j k. if j = 0 then 0 else 255)\<rparr> 1 = Inr (out2, rep)"
       "length rep = length (tile_grid (cols \<lparr>rows = 1, cols = 2, chans = 1, pix = (\<lambda>i j k. if j = 0 then 0 else 255)\<rparr>) (rows \<lparr>rows = 1, cols = 2, chans = 1, pix = (\<lambda>i j k. if j = 0 then 0 else 255)\<rparr>) 1)"
       "sorted rep" "last rep = 100"
    by blast
  from r(3) have "length rep = length (tile_grid 2 1 1)" by simp
  with r show ?thesis by blast
qed

section \<open>The identity model\<close>

lemma slice_plain:
  assumes "0 \<le> a" and "a \<le> b" and "b \<le> n"
  shows "slice_idx n a = a" and "slice_len n a b = b - a"
  using assms by (simp_all add: slice_idx_def slice_len_def)

lemma src_slice:
  assumes "0 \<le> P" and "1 \<le> T" and "0 \<le> x" and "x < w"
  shows "slice_idx w (tile_lo P x) = tile_lo P x"
    and "slice_len w (tile_lo P x) (tile_hi T P w x) = tile_hi T P w x - tile_lo P x"
    and "min w (x + T) \<le> tile_hi T P w x"
proof -
  have a: "0 \<le> tile_lo P x" "tile_lo P x \<le> x" using assms by (simp_all add: tile_lo_def)
  have b: "x < tile_hi T P w x" "tile_hi T P w x \<le> w" using assms by (simp_all add: tile_hi_def)
  have ab: "tile_lo P x \<le> tile_hi T P w x" using a b by simp
  show "slice_idx w (tile_lo P x) = tile_lo P x"
    by (rule slice_plain(1) [OF a(1) ab b(2)])
  show "slice_len w (tile_lo P x) (tile_hi T P w x) = tile_hi T P w x - tile_lo P x"
    by (rule slice_plain(2) [OF a(1) ab b(2)])
  show "min w (x + T) \<le> tile_hi T P w x" using assms by (simp add: tile_hi_def)
qed

lemma crop_slice:
  assumes "0 \<le> P" and "1 \<le> T" and "0 \<le> x" and "x < w"
  shows "slice_idx (tile_hi T P w x - tile_lo P x) (out_tile_lo P 1 x) = x - tile_lo P x"
    and "slice_len (tile_hi T P w x - tile_lo P x) (out_tile_lo P 1 x) (out_tile_hi T P 1 w x) =
           min w (x + T) - x"
proof -
  define lo where "lo = tile_lo P x"
  define hi where "hi = tile_hi T P w x"
  define m where "m = min w (x + T)"
  have a: "0 \<le> lo" "lo \<le> x" using assms by (simp_all add: lo_def tile_lo_def)
  have c: "m \<le> hi" unfolding m_def hi_def by (rule src_slice(3) [OF assms])
  have xm: "x < m" using assms by (simp add: m_def)
  have olo: "out_tile_lo P 1 x = x - lo"
    by (simp add: out_tile_lo_def non_pad_lo_eq [OF assms(1) assms(3)] lo_def)
  have ohi: "out_tile_hi T P 1 w x = m - lo"
    by (simp add: out_tile_hi_def non_pad_hi_eq [OF assms(1) assms(3)] lo_def m_def)
  have 1: "0 \<le> x - lo" using a by simp
  have 2: "x - lo \<le> m - lo" using xm by simp
  have 3: "m - lo \<le> hi - lo" using c by simp
  have "slice_idx (hi - lo) (x - lo) = x - lo" by (rule slice_plain(1) [OF 1 2 3])
  then show "slice_idx (tile_hi T P w x - tile_lo P x) (out_tile_lo P 1 x) = x - tile_lo P x"
    by (simp add: olo lo_def hi_def)
  have "slice_len (hi - lo) (x - lo) (m - lo) = (m - lo) - (x - lo)" by (rule slice_plain(2) [OF 1 2 3])
  then show "slice_len (tile_hi T P w x - tile_lo P x) (out_tile_lo P 1 x) (out_tile_hi T P 1 w x) =
           min w (x + T) - x"
    by (simp add: olo ohi lo_def hi_def m_def)
qed

lemma dest_unit_scale:
  "out_lo 1 x = x" "out_hi T 1 w x = min w (x + T)"
  by (simp_all add: out_lo_def out_hi_def)

lemma run_tile_identity:
  assumes P: "0 \<le> P" and T: "1 \<le> T"
    and gx: "0 \<le> x" "x < cols img" and gy: "0 \<le> y" "y < rows img"
    and sh: "rows b = rows img" "cols b = cols img" "chans b = chans img"
  shows "\<exists>b'. run_tile (\<lambda>t. Inr t) T P img 1 b x y = Inr b' \<and>
           (\<forall>px py k. in_dest (cols img) (rows img) T 1 (x, y) px py \<longrightarrow>
                0 \<le> k \<and> k < chans img \<longrightarrow> pix b' py px k = pix img py px k)"
proof -
  let ?w = "cols img" and ?h = "rows img"
  define tile where "tile = slice2 img (tile_lo P y) (tile_hi T P ?h y) (tile_lo P x) (tile_hi T P ?w x)"
  define ot where "ot = postprocess_image (preprocess_image tile)"
  define part where "part = tile_part T P img 1 ot x y"
  note sy = src_slice [OF P T gy]
  note sx = src_slice [OF P T gx]
  note cy = crop_slice [OF P T gy]
  note cx = crop_slice [OF P T gx]
  have ot_shape: "rows ot = tile_hi T P ?h y - tile_lo P y" "cols ot = tile_hi T P ?w x - tile_lo P x"
    "chans ot = chans img"
    by (simp_all add: ot_def tile_def postprocess_image_def preprocess_image_def slice2_def sy sx)
  have ot_pix: "pix ot i j k = pix img (tile_lo P y + i) (tile_lo P x + j) k" for i j k
    by (simp add: ot_def postprocess_preprocess_pixel) (simp add: tile_def slice2_def sy sx)
  have part_shape: "rows part = min ?h (y + T) - y" "cols part = min ?w (x + T) - x"
    "chans part = chans img"
    by (simp_all add: part_def tile_part_def slice2_def ot_shape cy cx)
  have part_pix: "pix part i j k = pix img (y + i) (x + j) k" for i j k
    by (simp add: part_def tile_part_def slice2_def ot_shape cy cx ot_pix)
  have my: "y \<le> min ?h (y + T)" "min ?h (y + T) \<le> ?h" using T gy by simp_all
  have mx: "x \<le> min ?w (x + T)" "min ?w (x + T) \<le> ?w" using T gx by simp_all
  note dy = slice_plain [OF gy(1) my]
  note dx = slice_plain [OF gx(1) mx]
  have run: "run_tile (\<lambda>t. Inr t) T P img 1 b x y =
        assign_slice b (out_lo 1 y) (out_hi T 1 ?h y) (out_lo 1 x) (out_hi T 1 ?w x) part"
    by (simp add: run_tile_def Let_def part_def ot_def tile_def)
  define b' where "b' = b\<lparr>pix := (\<lambda>i j k.
      if y \<le> i \<and> i < min ?h (y + T) \<and> x \<le> j \<and> j < min ?w (x + T)
      then pix part (if rows part = 1 then 0 else i - y)
                    (if cols part = 1 then 0 else j - x)
                    (if chans part = 1 then 0 else k)
      else pix b i j k)\<rparr>"
  have asg: "assign_slice b (out_lo 1 y) (out_hi T 1 ?h y) (out_lo 1 x) (out_hi T 1 ?w x) part = Inr b'"
    by (simp add: assign_slice_def Let_def sh dest_unit_scale dy dx part_shape broadcastable_def b'_def)
  have px_ok: "pix b' py px k = pix img py px k"
    if d: "in_dest ?w ?h T 1 (x, y) px py" and k: "0 \<le> k \<and> k < chans img" for px py k
  proof -
    from d have r: "y \<le> py" "py < min ?h (y + T)" "x \<le> px" "px < min ?w (x + T)"
      by (simp_all add: in_dest_def in_dest1_def dest_unit_scale)
    have ri: "(if rows part = 1 then 0 else py - y) = py - y"
      using r unfolding part_shape by (auto simp: min_def split: if_splits)
    have ci: "(if cols part = 1 then 0 else px - x) = px - x"
      using r unfolding part_shape by (auto simp: min_def split: if_splits)
    have ki: "(if chans part = 1 then 0 else k) = k"
      using k unfolding part_shape by auto
    have "pix b' py px k = pix part (py - y) (px - x) k"
      using r by (simp add: b'_def ri ci ki)
    then show ?thesis by (simp add: part_pix)
  qed
  have e: "run_tile (\<lambda>t. Inr t) T P img 1 b x y = Inr b'" using run asg by simp
  have "\<forall>px py k. in_dest ?w ?h T 1 (x, y) px py \<longrightarrow>
          0 \<le> k \<and> k < chans img \<longrightarrow> pix b' py px k = pix img py px k"
    using px_ok by simp
  with e show ?thesis by (intro exI [of _ b']) simp
qed

lemma identity_loop_copies:
  assumes d: "1 \<le> rows img" "1 \<le> cols img" "1 \<le> T" "0 \<le> P"
    and l: "tile_loop (\<lambda>t. Inr t) T P img 1 tt (tile_grid (cols img) (rows img) T)
              (zeros (rows img * 1) (cols img * 1) (chans img), 0, []) = Inr (out, n, rep)"
    and i: "0 \<le> py" "py < rows img" and j: "0 \<le> px" "px < cols img"
    and k: "0 \<le> k \<and> k < chans img"
  shows "pix out py px k = pix img py px k"
proof -
  let ?w = "cols img" and ?h = "rows img"
  let ?g = "tile_grid ?w ?h T"
  define Q where "Q = (\<lambda>(dn :: (int \<times> int) list) (b :: ndarray).
      rows b = ?h \<and> cols b = ?w \<and> chans b = chans img \<and>
      (\<forall>px py k. (\<exists>u \<in> set dn. in_dest ?w ?h T 1 u px py) \<longrightarrow>
          0 \<le> k \<and> k < chans img \<longrightarrow> pix b py px k = pix img py px k))"
  define G where "G = (\<lambda>u. u \<in> set ?g)"
  have q0: "Q [] (zeros (?h * 1) (?w * 1) (chans img))"
    by (simp add: Q_def zeros_def)
  have bounds: "0 \<le> x \<and> x < ?w \<and> 0 \<le> y \<and> y < ?h" if "G (x, y)" for x y
  proof -
    from that have mx: "x \<in> set (py_range ?w T)" and my: "y \<in> set (py_range ?h T)"
      by (simp_all add: G_def grid_member)
    from grid_origin_bounds [OF d(3) mx] grid_origin_bounds [OF d(3) my] show ?thesis by simp
  qed
  have ok: "Q ((x, y) # dn) b'"
    if "G (x, y)" and "Q dn b" and "run_tile (\<lambda>t. Inr t) T P img 1 b x y = Inr b'" for dn b b' x y
  proof -
    from bounds [OF that(1)] have gx: "0 \<le> x" "x < ?w" and gy: "0 \<le> y" "y < ?h" by simp_all
    have sh: "rows b = ?h" "cols b = ?w" "chans b = chans img"
      using that(2) by (simp_all add: Q_def)
    have sh': "rows b' = ?h" "cols b' = ?w" "chans b' = chans img"
      using run_tile_shape [OF that(3)] sh by simp_all
    from run_tile_identity [OF d(4) d(3) gx gy sh] that(3)
    have inside: "\<forall>px py k. in_dest ?w ?h T 1 (x, y) px py \<longrightarrow>
          0 \<le> k \<and> k < chans img \<longrightarrow> pix b' py px k = pix img py px k"
      by auto
    have "pix b' py px k = pix img py px k"
      if c: "\<exists>u \<in> set ((x, y) # dn). in_dest ?w ?h T 1 u px py" and kk: "0 \<le> k \<and> k < chans img"
      for px py k
    proof (cases "in_dest ?w ?h T 1 (x, y) px py")
      case True
      with inside kk show ?thesis by blast
    next
      case False
      with c have c': "\<exists>u \<in> set dn. in_dest ?w ?h T 1 u px py" by auto
      have s0: "(0::int) \<le> 1" "0 \<le> T" using d by simp_all
      have le: "x \<le> ?w" "y \<le> ?h" using gx gy by simp_all
      have sh1: "rows b = ?h * 1" "cols b = ?w * 1" using sh by simp_all
      have "pix b' py px k = pix b py px k"
        by (rule run_tile_outside [OF \<open>run_tile (\<lambda>t. Inr t) T P img 1 b x y = Inr b'\<close> sh1
              gx(1) le(1) gy(1) le(2) s0 False])
      also have "\<dots> = pix img py px k" using \<open>Q dn b\<close> c' kk by (simp add: Q_def)
      finally show ?thesis .
    qed
    then show ?thesis using sh' by (simp add: Q_def)
  qed
  have fail: "Q ((x, y) # dn) b"
    if "G (x, y)" and "Q dn b" and "run_tile (\<lambda>t. Inr t) T P img 1 b x y = Inl e" for dn b e x y
  proof -
    from bounds [OF that(1)] have gx: "0 \<le> x" "x < ?w" and gy: "0 \<le> y" "y < ?h" by simp_all
    have sh: "rows b = ?h" "cols b = ?w" "chans b = chans img"
      using that(2) by (simp_all add: Q_def)
    from run_tile_identity [OF d(4) d(3) gx gy sh] that(3) have False by auto
    then show ?thesis ..
  qed
  have "\<forall>u \<in> set ?g. G u" by (simp add: G_def)
  from tile_loop_invariant [of G Q "\<lambda>t. Inr t" T P img 1, OF ok fail l q0 this]
  have qf: "Q (rev ?g @ []) out" .
  have s1: "(1::int) \<le> 1" by simp
  have "length (filter (\<lambda>u. in_dest ?w ?h T 1 u px py) ?g) = 1"
    using dest_count_2d [OF d(3) s1, of px ?w py ?h] i j by simp
  then have "filter (\<lambda>u. in_dest ?w ?h T 1 u px py) ?g \<noteq> []" by auto
  then have "\<exists>u \<in> set ?g. in_dest ?w ?h T 1 u px py" by (simp add: filter_empty_conv)
  with qf k show ?thesis by (simp add: Q_def)
qed

lemma identity_first_tile:
  assumes "1 \<le> rows img" and "1 \<le> cols img" and "1 \<le> T" and "0 \<le> P"
  shows "\<not> tile_raises (\<lambda>t. Inr t) T P img 1 (0, 0)"
proof -
  have g: "(0::int) \<le> 0" "0 < cols img" "0 < rows img" using assms by simp_all
  from run_tile_identity [OF assms(4) assms(3) g(1) g(2) g(1) g(3),
      of "zeros (rows img * 1) (cols img * 1) (chans img)"]
  show ?thesis by (auto simp: tile_raises_def zeros_def)
qed

text \<open>
  C2.  With the identity model (the output tensor is the input tensor) and scale 1, for
  every image of at least one row and one column, every tile size of at least 1 and every
  padding of at least 0, the call returns an array of the shape of the image whose pixels
  equal those of the image.  The float32 round trip of \<open>preprocess_image\<close> and
  \<open>postprocess_image\<close> gives back each of the 256 pixel values.
\<close>

theorem identity_model_reproduces_input:
  assumes "1 \<le> rows img" and "1 \<le> cols img" and "1 \<le> T" and "0 \<le> P"
  shows "\<exists>out rep. process_image_with_tiling (\<lambda>t. Inr t) T P img 1 = Inr (out, rep) \<and>
           rows out = rows img \<and> cols out = cols img \<and> chans out = chans img \<and>
           (\<forall>i j k. 0 \<le> i \<and> i < rows img \<and> 0 \<le> j \<and> j < cols img \<and>
                    0 \<le> k \<and> k < chans img \<longrightarrow> pix out i j k = pix img i j k)"
proof -
  have s1: "(1::int) \<le> 1" by simp
  note nr = identity_first_tile [OF assms]
  from first_tile_decides [OF assms(1) assms(2) assms(3) s1, of "\<lambda>t. Inr t" P] nr
  obtain out n rep where
    l: "tile_loop (\<lambda>t. Inr t) T P img 1 (int (length (tile_grid (cols img) (rows img) T)))
          (tile_grid (cols img) (rows img) T)
          (zeros (rows img * 1) (cols img * 1) (chans img), 0, []) = Inr (out, n, rep)"
    and p: "process_image_with_tiling (\<lambda>t. Inr t) T P img 1 = Inr (out, rep)"
    by blast
  from tile_loop_result [OF l]
  have sh: "rows out = rows img" "cols out = cols img" "chans out = chans img"
    by (simp_all add: zeros_def)
  have "\<forall>i j k. 0 \<le> i \<and> i < rows img \<and> 0 \<le> j \<and> j < cols img \<and>
                    0 \<le> k \<and> k < chans img \<longrightarrow> pix out i j k = pix img i j k"
    using identity_loop_copies [OF assms l] by blast
  with p sh show ?thesis by blast
qed

theorem identity_model_reproduces_input_witness:
  "\<exists>out rep. process_image_with_tiling (\<lambda>t. Inr t) 2 1
       \<lparr>rows = 2, cols = 3, chans = 1, pix = (\<lambda>i j k. if j = 2 then 200 else 7)\<rparr> 1 = Inr (out, rep) \<and>
     rows out = 2 \<and> cols out = 3 \<and> pix out 1 2 0 = 200"
proof -
  have d: "1 \<le> rows \<lparr>rows = 2, cols = 3, chans = 1, pix = (\<lambda>i j k. if j = 2 then 200 else 7)\<rparr>"
    "1 \<le> cols \<lparr>rows = 2, cols = 3, chans = 1, pix = (\<lambda>i j k. if j = 2 then 200 else 7)\<rparr>"
    "(1::int) \<le> 2" "(0::int) \<le> 1" by simp_all
  from identity_model_reproduces_input [OF d]
  obtain out rep where
    r: "process_image_with_tiling (\<lambda>t. Inr t) 2 1
          \<lparr>rows = 2, cols = 3, chans = 1, pix = (\<lambda>i j k. if j = 2 then 200 else 7)\<rparr> 1 = Inr (out, rep)"
       "rows out = 2" "cols out = 3"
       "\<forall>i j k. 0 \<le> i \<and> i < 2 \<and> 0 \<le> j \<and> j < 3 \<and> 0 \<le> k \<and> k < 1 \<longrightarrow>
          pix out i j k = (if j = 2 then 200 else 7)"
    by auto
  from r(4) have "pix out 1 2 0 = 200" by simp
  with r show ?thesis by blast
qed

end
